theory Spec2Isabelle
  imports Main
begin

section \<open>Overview\<close>

text \<open>
  The repository converts between spreadsheets of dotted keys and nested JSON documents.
  Its algorithmic core are three functions, embedded here:
  \<^item> \<open>unflatten\<close> of the multi-file converter (the closure \<open>setDeep\<close> and the loop over
    \<open>Object.entries(flatObj)\<close>),
  \<^item> \<open>unflatten\<close> of the single-workbook converter (the same loop written inline, here
    \<open>unflatten2\<close>),
  \<^item> \<open>flattenJSON\<close> of the spreadsheet generator.

  JavaScript values are modelled by the datatype \<open>jsval\<close>: primitives, plain objects
  (their own properties in the order \<open>Object.entries\<close> lists them) and arrays (their
  elements with holes, and the named properties an array may carry beside them).
  The containers that \<open>unflatten\<close> builds are fresh and form a tree, so the in-place
  mutation of the source is modelled by returning the updated container to the parent,
  which stores it back into the slot it was read from.

  Limits of the model. Strings are lists of characters, of which only the dot, the
  decimal digits and white space are inspected. Numbers are opaque to all three functions
  and are represented by integers.

  Property names are modelled in two layers. The functions \<open>get_name\<close>, \<open>set_name\<close>,
  \<open>get_index\<close>, \<open>set_index\<close> and the loops built on them (\<open>setDeep_at\<close>, \<open>unflatten\<close>,
  \<open>unflatten2\<close>) read and write own properties: this is what JavaScript does for every
  name except \<open>__proto__\<close> (an accessor of \<open>Object.prototype\<close>) and, on an array,
  \<open>length\<close>, and for every digit string whose value is below \<open>2^53\<close>, where \<open>Number(p)\<close>
  is exact. The functions \<open>subscript_outcome\<close>, \<open>setDeep_outcome\<close> and
  \<open>unflatten_outcome\<close> add these cases: they return the result of the first layer where
  every subscript is one on an own property, \<open>Throws RangeError\<close> where the source assigns
  an object to the \<open>length\<close> of an array, and \<open>Unmodelled\<close> where the behaviour of the
  source depends on the prototype chain, on the conversion of a value to an array length,
  or on the rounding of \<open>Number(p)\<close>. The built-in prototypes are taken as JavaScript
  provides them. The theorems that hold for all flat maps or all trees are stated on
  \<open>unflatten_outcome\<close>; the first layer is used at concrete inputs without such segments.
  \<open>flattenJSON\<close> only writes into the plain object \<open>out\<close>, where \<open>__proto__\<close> is the one key
  with a built-in meaning; the model treats it as JavaScript does.
\<close>

section \<open>Strings: digits, indices, splitting at dots\<close>

definition is_digit :: "char \<Rightarrow> bool" where
  "is_digit c = (c \<in> set ''0123456789'')"

definition digit_val :: "char \<Rightarrow> nat" where
  "digit_val c = of_char c - 48"

definition digit_char :: "nat \<Rightarrow> char" where
  "digit_char d = ''0123456789'' ! d"

text \<open>\<^verbatim>\<open>const isIndex = (p) => /^\d+$/.test(p);\<close>\<close>

definition isIndex :: "string \<Rightarrow> bool" where
  "isIndex p = (p \<noteq> [] \<and> list_all is_digit p)"

text \<open>
  \<open>Number(p)\<close> for a string of decimal digits (the only strings the source converts):
  the value of the digits. This is the number JavaScript computes when the value is
  below \<open>2^53\<close>; above, JavaScript rounds to a double (see \<open>subscript_outcome\<close>).
\<close>

definition Number :: "string \<Rightarrow> nat" where
  "Number p = foldl (\<lambda>a c. 10 * a + digit_val c) 0 p"

text \<open>
  The decimal rendering of a non-negative integer: the string a template literal
  \<^verbatim>\<open>`${i}`\<close> produces, and the property key a numeric subscript \<open>cur[idx]\<close> denotes.
\<close>

fun ToString :: "nat \<Rightarrow> string" where
  "ToString n =
     (if n < 10 then [digit_char n] else ToString (n div 10) @ [digit_char (n mod 10)])"

declare ToString.simps [simp del]

text \<open>\<^verbatim>\<open>String(flatKey).split('.')\<close>: the result is never empty.\<close>

fun split_dot :: "string \<Rightarrow> string list" where
  "split_dot [] = [[]]"
| "split_dot (c # cs) =
     (if c = CHR ''.'' then [] # split_dot cs
      else (case split_dot cs of [] \<Rightarrow> [[c]] | s # ss \<Rightarrow> (c # s) # ss))"

section \<open>JavaScript values\<close>

text \<open>
  Primitives. \<open>ArrayPush\<close> is the built-in function \<open>Array.prototype.push\<close>, which the
  second variant of \<open>unflatten\<close> stores as a property value; its \<open>typeof\<close> is
  \<open>'function'\<close>.
\<close>

datatype prim = Undefined | Null | Str string | Num int | Bool bool | ArrayPush

text \<open>
  \<open>Obj ps\<close>: a plain object with own enumerable properties \<open>ps\<close>, in property order.
  \<open>Arr es ps\<close>: an array with elements \<open>es\<close> (\<open>None\<close> is a hole, \<open>length es\<close> is its
  \<open>length\<close>) and further named properties \<open>ps\<close>.
\<close>

datatype jsval =
    Prim prim
  | Obj "(string \<times> jsval) list"
  | Arr "jsval option list" "(string \<times> jsval) list"

type_synonym props = "(string \<times> jsval) list"

text \<open>\<open>v == null\<close>\<close>

definition is_nullish :: "jsval \<Rightarrow> bool" where
  "is_nullish v = (v = Prim Undefined \<or> v = Prim Null)"

text \<open>\<open>typeof v === 'object'\<close> (true of \<open>null\<close>, of objects and of arrays)\<close>

fun typeof_object :: "jsval \<Rightarrow> bool" where
  "typeof_object (Prim s) = (s = Null)"
| "typeof_object (Obj ps) = True"
| "typeof_object (Arr es ps) = True"

text \<open>\<open>Array.isArray(v)\<close>\<close>

fun isArray :: "jsval \<Rightarrow> bool" where
  "isArray (Arr es ps) = True"
| "isArray (Obj ps) = False"
| "isArray (Prim s) = False"

text \<open>\<open>v ?? ''\<close> on a primitive\<close>

definition coalesce_empty :: "prim \<Rightarrow> prim" where
  "coalesce_empty s = (if s = Undefined \<or> s = Null then Str [] else s)"

subsection \<open>Own properties in order\<close>

text \<open>
  A property key is an array index when it is the canonical decimal string of an integer
  below \<open>2^32 - 1\<close>. An object lists its array-index keys first, in ascending numeric
  order, and then its other keys in the order of their creation; assigning to an
  existing key keeps its place.
\<close>

definition is_array_index :: "string \<Rightarrow> bool" where
  "is_array_index k = (isIndex k \<and> ToString (Number k) = k \<and> Number k < 4294967295)"

fun replace_value :: "string \<Rightarrow> jsval \<Rightarrow> props \<Rightarrow> props" where
  "replace_value k v [] = []"
| "replace_value k v ((k', v') # ps) =
     (if k' = k then (k', v) # ps else (k', v') # replace_value k v ps)"

fun insert_index_key :: "string \<Rightarrow> jsval \<Rightarrow> props \<Rightarrow> props" where
  "insert_index_key k v [] = [(k, v)]"
| "insert_index_key k v ((k', v') # ps) =
     (if is_array_index k' \<and> Number k' < Number k then (k', v') # insert_index_key k v ps
      else (k, v) # (k', v') # ps)"

text \<open>\<open>o[k] = v\<close> on the own properties of an object, for a key other than \<open>__proto__\<close>\<close>

definition obj_put :: "string \<Rightarrow> jsval \<Rightarrow> props \<Rightarrow> props" where
  "obj_put k v ps =
     (if k \<in> set (map fst ps) then replace_value k v ps
      else if is_array_index k then insert_index_key k v ps
      else ps @ [(k, v)])"

text \<open>\<open>o[k]\<close>: \<open>undefined\<close> when the key is absent\<close>

definition obj_get :: "props \<Rightarrow> string \<Rightarrow> jsval" where
  "obj_get ps k = (case map_of ps k of Some v \<Rightarrow> v | None \<Rightarrow> Prim Undefined)"

subsection \<open>Array elements\<close>

text \<open>\<open>a[i]\<close> for an array index \<open>i\<close>: \<open>undefined\<close> at a hole and beyond the length\<close>

definition arr_get :: "jsval option list \<Rightarrow> nat \<Rightarrow> jsval" where
  "arr_get es i =
     (if i < length es then (case es ! i of Some v \<Rightarrow> v | None \<Rightarrow> Prim Undefined)
      else Prim Undefined)"

text \<open>\<open>a[i] = v\<close> for an array index \<open>i\<close>: beyond the length the array grows, with holes\<close>

definition arr_put :: "nat \<Rightarrow> jsval \<Rightarrow> jsval option list \<Rightarrow> jsval option list" where
  "arr_put i v es =
     (if i < length es then es[i := Some v]
      else es @ replicate (i - length es) None @ [Some v])"

subsection \<open>Subscripts on a value\<close>

text \<open>
  \<open>cur[p]\<close> and \<open>cur[p] = v\<close> for a string \<open>p\<close> that is not a digit string, and
  \<open>cur[idx]\<close> and \<open>cur[idx] = v\<close> for a number \<open>idx = Number(p)\<close>, as subscripts on own
  properties. On an array a number below \<open>2^32 - 1\<close> addresses an element; any other key
  addresses a named property. A name that is not an own property reads as \<open>undefined\<close>:
  the source only tests the value read for \<open>== null\<close> and for \<open>typeof ... !== 'object'\<close>,
  and the inherited properties of objects and arrays other than \<open>__proto__\<close> are functions,
  which fail the second test like \<open>undefined\<close> fails the first. The names \<open>__proto__\<close> and,
  on an array, \<open>length\<close> are not subscripts on own properties; \<open>subscript_outcome\<close> below
  treats them. In the source \<open>cur\<close> is always an object or an array; the equations for
  primitives only make the functions total.
\<close>

fun get_name :: "jsval \<Rightarrow> string \<Rightarrow> jsval" where
  "get_name (Obj ps) p = obj_get ps p"
| "get_name (Arr es ps) p = obj_get ps p"
| "get_name (Prim s) p = Prim Undefined"

fun set_name :: "jsval \<Rightarrow> string \<Rightarrow> jsval \<Rightarrow> jsval" where
  "set_name (Obj ps) p v = Obj (obj_put p v ps)"
| "set_name (Arr es ps) p v = Arr es (obj_put p v ps)"
| "set_name (Prim s) p v = Prim s"

fun get_index :: "jsval \<Rightarrow> nat \<Rightarrow> jsval" where
  "get_index (Obj ps) i = obj_get ps (ToString i)"
| "get_index (Arr es ps) i =
     (if i < 4294967295 then arr_get es i else obj_get ps (ToString i))"
| "get_index (Prim s) i = Prim Undefined"

fun set_index :: "jsval \<Rightarrow> nat \<Rightarrow> jsval \<Rightarrow> jsval" where
  "set_index (Obj ps) i v = Obj (obj_put (ToString i) v ps)"
| "set_index (Arr es ps) i v =
     (if i < 4294967295 then Arr (arr_put i v es) ps
      else Arr es (obj_put (ToString i) v ps))"
| "set_index (Prim s) i v = Prim s"

section \<open>unflatten, multi-file converter\<close>

text \<open>
  The loop of \<open>setDeep\<close> from segment \<open>i\<close> on. \<open>cur\<close> is the container the loop stands
  in, \<open>hasParent\<close> says whether \<open>parentInfo.container\<close> is set (it is from the second
  segment on), and the result is the container that occupies the slot of \<open>cur\<close> when the
  loop has finished: \<open>cur\<close> updated in place, or the array that replaced it.

  When \<open>cur\<close> is not an array, an index arrives and there is a parent, the source reads
  \<open>parentInfo.container[parentInfo.key]\<close>, which is \<open>cur\<close> itself (\<open>parentInfo\<close> and \<open>cur\<close>
  are assigned together), so the array it continues with is always the fresh \<open>[]\<close>,
  written into the parent's slot. At the root there is no parent and the index is used
  as a key of the object.

  A segment that is not the last ensures a container under it: a missing value, or one
  whose \<open>typeof\<close> is not \<open>'object'\<close>, is replaced by \<open>[]\<close> when the next segment is an index
  and by \<open>{}\<close> otherwise.
\<close>

fun setDeep_at :: "bool \<Rightarrow> jsval \<Rightarrow> string list \<Rightarrow> jsval \<Rightarrow> jsval" where
  "setDeep_at hasParent cur [] value = cur"
| "setDeep_at hasParent cur [p] value =
     (if isIndex p then
        (let idx = Number p;
             cur' = (if \<not> isArray cur \<and> hasParent then Arr [] [] else cur)
         in set_index cur' idx value)
      else set_name cur p value)"
| "setDeep_at hasParent cur (p # q # rest) value =
     (let nextIsIndex = isIndex q;
          fresh = (if nextIsIndex then Arr [] [] else Obj [])
      in
      if isIndex p then
        (let idx = Number p;
             cur' = (if \<not> isArray cur \<and> hasParent then Arr [] [] else cur);
             child = (if is_nullish (get_index cur' idx) \<or> \<not> typeof_object (get_index cur' idx)
                      then fresh else get_index cur' idx)
         in set_index cur' idx (setDeep_at True child (q # rest) value))
      else
        (let child = (if is_nullish (get_name cur p) \<or> \<not> typeof_object (get_name cur p)
                      then fresh else get_name cur p)
         in set_name cur p (setDeep_at True child (q # rest) value)))"

text \<open>\<open>setDeep(parts, value)\<close> starts at the root, with no parent.\<close>

definition setDeep :: "string list \<Rightarrow> jsval \<Rightarrow> jsval \<Rightarrow> jsval" where
  "setDeep parts value root = setDeep_at False root parts value"

text \<open>
  \<open>unflatten(flatObj)\<close>, given the entries of \<open>flatObj\<close> in the order of
  \<open>Object.entries\<close>. An empty key is skipped (\<open>if (!flatKey) continue\<close>).
\<close>

definition unflatten :: "props \<Rightarrow> jsval" where
  "unflatten flatObj =
     fold (\<lambda>(flatKey, value) root.
             if flatKey = [] then root else setDeep (split_dot flatKey) value root)
          flatObj (Obj [])"

section \<open>unflatten, single-workbook converter\<close>

text \<open>
  Stepping through an index on a container that is not an array, the second variant
  deletes every own key of the container and then sets its property \<open>push\<close>; the arrays
  it builds beside that are local and dropped.
\<close>

fun clear_and_push :: "jsval \<Rightarrow> jsval" where
  "clear_and_push (Obj ps) = Obj (obj_put ''push'' (Prim ArrayPush) [])"
| "clear_and_push (Arr es ps) = Arr es ps"
| "clear_and_push (Prim s) = Prim s"

text \<open>
  The inner loop from segment \<open>i\<close> on; the result is \<open>cur\<close> as the loop leaves it. At a
  last segment that is an index, a \<open>cur\<close> that is not an array is copied into a local
  array and the value is assigned to the copy: \<open>cur\<close> itself stays as it is.
\<close>

fun walk2 :: "jsval \<Rightarrow> string list \<Rightarrow> jsval \<Rightarrow> jsval" where
  "walk2 cur [] value = cur"
| "walk2 cur [p] value =
     (if isIndex p then
        (if \<not> isArray cur then cur else set_index cur (Number p) value)
      else set_name cur p value)"
| "walk2 cur (p # q # rest) value =
     (let shouldBeArray = isIndex q;
          fresh = (if shouldBeArray then Arr [] [] else Obj [])
      in
      if isIndex p then
        (let idx = Number p;
             cur1 = (if \<not> isArray cur then clear_and_push cur else cur);
             cur2 = (if is_nullish (get_index cur1 idx) then set_index cur1 idx fresh else cur1);
             cur3 = (if \<not> typeof_object (get_index cur2 idx) then set_index cur2 idx fresh
                     else cur2)
         in set_index cur3 idx (walk2 (get_index cur3 idx) (q # rest) value))
      else
        (let cur2 = (if is_nullish (get_name cur p) then set_name cur p fresh else cur);
             cur3 = (if \<not> typeof_object (get_name cur2 p) then set_name cur2 p fresh else cur2)
         in set_name cur3 p (walk2 (get_name cur3 p) (q # rest) value)))"

definition unflatten2 :: "props \<Rightarrow> jsval" where
  "unflatten2 flatObj =
     fold (\<lambda>(flatKey, value) root.
             if flatKey = [] then root else walk2 root (split_dot flatKey) value)
          flatObj (Obj [])"

section \<open>flattenJSON\<close>

text \<open>\<open>Object.entries\<close> of an array: the elements that are not holes, then the named properties\<close>

fun array_entries :: "jsval option list \<Rightarrow> nat \<Rightarrow> props" where
  "array_entries [] i = []"
| "array_entries (None # es) i = array_entries es (Suc i)"
| "array_entries (Some v # es) i = (ToString i, v) # array_entries es (Suc i)"

fun entries :: "jsval \<Rightarrow> props" where
  "entries (Obj ps) = ps"
| "entries (Arr es ps) = array_entries es 0 @ ps"
| "entries (Prim s) = []"

text \<open>
  \<open>flatten_entries\<close> is the loop \<open>for (const [k, v] of Object.entries(obj))\<close> of
  \<open>flattenJSON(obj, parentKey, out)\<close>, and \<open>flatten_forEach\<close> is \<open>v.forEach((iv, i) => ...)\<close>
  from position \<open>i\<close> on (\<open>forEach\<close> skips holes). The constructor of a value decides the
  branch: the test \<open>v && typeof v === 'object' && !Array.isArray(v)\<close> holds exactly of
  \<open>Obj\<close>, where the source calls \<open>flattenJSON(v, nk, out)\<close>, which runs the loop over the
  entries of \<open>v\<close>; \<open>Array.isArray(v)\<close> holds exactly of \<open>Arr\<close>; every primitive takes the last
  branch, \<open>out[nk] = v ?? ''\<close>.
  Inside \<open>forEach\<close> there is no branch for arrays: an element that is an array fails the
  first test and is stored as it is.
  \<open>out\<close> is a plain object. When \<open>nk\<close> is \<open>__proto__\<close> (a top-level key of that name),
  \<open>out[nk] = v ?? ''\<close> reaches the setter of \<open>Object.prototype\<close>, which ignores a value
  that is not an object: \<open>out\<close> stays as it is. The keys written inside \<open>forEach\<close>
  contain a dot.
\<close>

fun flatten_entries :: "props \<Rightarrow> string \<Rightarrow> props \<Rightarrow> props"
  and flatten_forEach :: "jsval option list \<Rightarrow> nat \<Rightarrow> string \<Rightarrow> props \<Rightarrow> props" where
  "flatten_entries [] parentKey out = out"
| "flatten_entries ((k, v) # rest) parentKey out =
     (let nk = (if parentKey \<noteq> [] then parentKey @ ''.'' @ k else k)
      in flatten_entries rest parentKey
           (case v of
              Obj qs \<Rightarrow> flatten_entries qs nk out
            | Arr es ps \<Rightarrow> flatten_forEach es 0 nk out
            | Prim s \<Rightarrow> (if nk = ''__proto__'' then out
                        else obj_put nk (Prim (coalesce_empty s)) out)))"
| "flatten_forEach [] i nk out = out"
| "flatten_forEach (e # es) i nk out =
     flatten_forEach es (Suc i) nk
       (case e of
          None \<Rightarrow> out
        | Some (Obj qs) \<Rightarrow> flatten_entries qs (nk @ ''.'' @ ToString i) out
        | Some (Arr a b) \<Rightarrow> obj_put (nk @ ''.'' @ ToString i) (Arr a b) out
        | Some (Prim s) \<Rightarrow> obj_put (nk @ ''.'' @ ToString i) (Prim (coalesce_empty s)) out)"

text \<open>
  \<open>flattenJSON(obj, parentKey, out)\<close>; the defaults of the source are \<open>parentKey = ''\<close>
  and \<open>out = {}\<close>.
\<close>

definition flattenJSON :: "jsval \<Rightarrow> string \<Rightarrow> props \<Rightarrow> props" where
  "flattenJSON obj parentKey out =
     (if is_nullish obj \<or> \<not> typeof_object obj then out
      else flatten_entries (entries obj) parentKey out)"

section \<open>Notions used in the statements\<close>

subsection \<open>Containers, segments and paths\<close>

text \<open>The values \<open>unflatten\<close> walks into: objects and arrays.\<close>

definition is_container :: "jsval \<Rightarrow> bool" where
  "is_container v = (case v of Prim s \<Rightarrow> False | Obj ps \<Rightarrow> True | Arr es ps \<Rightarrow> True)"

text \<open>
  The subscript a path segment denotes, as \<open>setDeep\<close> uses it: \<open>cur[Number(p)]\<close> for a
  digit string and \<open>cur[p]\<close> otherwise.
\<close>

definition get_seg :: "jsval \<Rightarrow> string \<Rightarrow> jsval" where
  "get_seg cur p = (if isIndex p then get_index cur (Number p) else get_name cur p)"

definition set_seg :: "jsval \<Rightarrow> string \<Rightarrow> jsval \<Rightarrow> jsval" where
  "set_seg cur p v = (if isIndex p then set_index cur (Number p) v else set_name cur p v)"

text \<open>
  Reading a tree along a list of segments, \<open>root[p1][p2]...\<close> on own properties: what is
  stored in the tree under the path. Nothing is stored below a primitive, where the
  result is \<open>undefined\<close>.
\<close>

fun get_path :: "jsval \<Rightarrow> string list \<Rightarrow> jsval" where
  "get_path t [] = t"
| "get_path t (p # rest) = get_path (get_seg t p) rest"

text \<open>
  The container \<open>setDeep\<close> continues with at segment \<open>p\<close>: the fresh array when an index
  meets a container that is not an array and has a parent, and \<open>cur\<close> itself otherwise.
\<close>

definition conv :: "bool \<Rightarrow> jsval \<Rightarrow> string \<Rightarrow> jsval" where
  "conv hasParent cur p = (if isIndex p \<and> \<not> isArray cur \<and> hasParent then Arr [] [] else cur)"

text \<open>\<open>nextIsIndex ? [] : {}\<close> for the next segment \<open>q\<close>\<close>

definition fresh_for :: "string \<Rightarrow> jsval" where
  "fresh_for q = (if isIndex q then Arr [] [] else Obj [])"

text \<open>The key of the root object that a first segment addresses.\<close>

definition root_key :: "string \<Rightarrow> string" where
  "root_key p = (if isIndex p then ToString (Number p) else p)"

text \<open>One entry of a flat map, given by its segments, applied to a container.\<close>

definition setDeep_entry :: "bool \<Rightarrow> string list \<times> jsval \<Rightarrow> jsval \<Rightarrow> jsval" where
  "setDeep_entry hasParent e cur = setDeep_at hasParent cur (fst e) (snd e)"

subsection \<open>Well-formed trees\<close>

text \<open>
  A name, in the sense of the data model: a non-empty string without a dot that is not a
  digit string. The name \<open>__proto__\<close> is left out: on a JavaScript object it addresses the
  prototype, not a property.
\<close>

definition name_ok :: "string \<Rightarrow> bool" where
  "name_ok k = (k \<noteq> [] \<and> CHR ''.'' \<notin> set k \<and> \<not> isIndex k \<and> k \<noteq> ''__proto__'')"

text \<open>
  A well-formed value: a scalar (a string, a number or a boolean), a non-empty mapping
  with distinct names as keys and well-formed children, or a non-empty sequence without
  holes and without named properties whose elements are well-formed (sequences may be
  nested). JavaScript arrays have fewer than \<open>2^32\<close> elements.
  A well-formed tree is a mapping, possibly empty, of well-formed values under distinct
  names.
\<close>

fun wf_value :: "jsval \<Rightarrow> bool"
  and wf_props :: "props \<Rightarrow> bool"
  and wf_elems :: "jsval option list \<Rightarrow> bool" where
  "wf_value (Prim s) = (case s of Str x \<Rightarrow> True | Num n \<Rightarrow> True | Bool b \<Rightarrow> True | _ \<Rightarrow> False)"
| "wf_value (Obj ps) = (ps \<noteq> [] \<and> wf_props ps)"
| "wf_value (Arr es ps) = (es \<noteq> [] \<and> ps = [] \<and> length es \<le> 4294967295 \<and> wf_elems es)"
| "wf_props [] = True"
| "wf_props ((k, v) # ps) = (name_ok k \<and> k \<notin> fst ` set ps \<and> wf_value v \<and> wf_props ps)"
| "wf_elems [] = True"
| "wf_elems (e # es) = (case e of None \<Rightarrow> False | Some v \<Rightarrow> wf_value v \<and> wf_elems es)"

definition wf_tree :: "jsval \<Rightarrow> bool" where
  "wf_tree T = (case T of Obj ps \<Rightarrow> wf_props ps | _ \<Rightarrow> False)"

subsection \<open>The entries flattenJSON writes, by segments\<close>

text \<open>
  \<open>paths_entries\<close> and \<open>paths_forEach\<close> follow the recursion of \<open>flatten_entries\<close> and
  \<open>flatten_forEach\<close> and list, in the same order, the segments under which each value is
  written; \<open>key_of\<close> joins segments below a parent key the way \<open>flattenJSON\<close> builds
  \<open>nk\<close>. The lemma \<open>flatten_paths\<close> relates them to the functions of the code.
\<close>

fun paths_entries :: "props \<Rightarrow> (string list \<times> jsval) list"
  and paths_forEach :: "jsval option list \<Rightarrow> nat \<Rightarrow> (string list \<times> jsval) list" where
  "paths_entries [] = []"
| "paths_entries ((k, v) # rest) =
     (case v of
        Obj qs \<Rightarrow> map (\<lambda>(segs, w). (k # segs, w)) (paths_entries qs)
      | Arr es ps \<Rightarrow> map (\<lambda>(segs, w). (k # segs, w)) (paths_forEach es 0)
      | Prim s \<Rightarrow> [([k], Prim (coalesce_empty s))]) @ paths_entries rest"
| "paths_forEach [] i = []"
| "paths_forEach (e # es) i =
     (case e of
        None \<Rightarrow> []
      | Some (Obj qs) \<Rightarrow> map (\<lambda>(segs, w). (ToString i # segs, w)) (paths_entries qs)
      | Some (Arr a b) \<Rightarrow> [([ToString i], Arr a b)]
      | Some (Prim s) \<Rightarrow> [([ToString i], Prim (coalesce_empty s))]) @ paths_forEach es (Suc i)"

fun key_of :: "string \<Rightarrow> string list \<Rightarrow> string" where
  "key_of pk [] = pk"
| "key_of pk (s # segs) = key_of (if pk \<noteq> [] then pk @ ''.'' @ s else s) segs"

definition keyed :: "string \<Rightarrow> string list \<times> jsval \<Rightarrow> string \<times> jsval" where
  "keyed pk e = (key_of pk (fst e), snd e)"

text \<open>\<open>out[k] = v\<close> for an entry \<open>(k, v)\<close>\<close>

definition put_entry :: "string \<times> jsval \<Rightarrow> props \<Rightarrow> props" where
  "put_entry e out = obj_put (fst e) (snd e) out"

subsection \<open>The leaves of a tree and the children of a container\<close>

text \<open>
  \<open>leaves t\<close> is the set of entries \<open>flattenJSON\<close> writes for \<open>t\<close>, by segments. \<open>child\<close>
  reads the slot \<open>cur[p]\<close> of a container; \<open>local_ok\<close> says that the keys of an object are
  distinct and that a sequence stays below the largest array length and holds no sequence
  as an element; \<open>fits\<close> says that \<open>p\<close> addresses a slot of the kind the container has.
\<close>

definition leaves :: "jsval \<Rightarrow> (string list \<times> jsval) set" where
  "leaves t = (case t of
       Prim s \<Rightarrow> {([], Prim (coalesce_empty s))}
     | Obj ps \<Rightarrow> set (paths_entries ps)
     | Arr es ps \<Rightarrow> set (paths_forEach es 0))"

fun child :: "jsval \<Rightarrow> string \<Rightarrow> jsval option" where
  "child (Obj ps) p = map_of ps p"
| "child (Arr es ps) p =
     (if is_array_index p \<and> Number p < length es then es ! Number p else None)"
| "child (Prim s) p = None"

fun local_ok :: "jsval \<Rightarrow> bool" where
  "local_ok (Obj ps) = distinct (map fst ps)"
| "local_ok (Arr es ps) = (length es \<le> 4294967295 \<and> (\<forall>v. Some v \<in> set es \<longrightarrow> \<not> isArray v))"
| "local_ok (Prim s) = False"

fun fits :: "jsval \<Rightarrow> string \<Rightarrow> bool" where
  "fits (Obj ps) p = (root_key p = p)"
| "fits (Arr es ps) p = is_array_index p"
| "fits (Prim s) p = False"

subsection \<open>Flat maps that unflatten without loss\<close>

text \<open>
  A segment is \<open>key_ok\<close> when it is not empty, has no dot, is not \<open>__proto__\<close> and, if it
  is all digits, is the canonical decimal form of an array index (no leading zero, below
  \<open>2^32 - 1\<close>). A value is
  \<open>scalar_ok\<close> when it is a string, a number or a boolean. \<open>nadj\<close> holds of a list of
  segments in which no index follows an index directly. Two lists of segments are
  \<open>compatible\<close> when neither is a prefix of the other and, where they first differ, both
  segments are indices or neither is.
\<close>

definition key_ok :: "string \<Rightarrow> bool" where
  "key_ok s = (s \<noteq> [] \<and> CHR ''.'' \<notin> set s \<and> s \<noteq> ''__proto__'' \<and>
              (isIndex s \<longrightarrow> is_array_index s))"

definition scalar_ok :: "jsval \<Rightarrow> bool" where
  "scalar_ok v = (case v of Prim s \<Rightarrow> wf_value (Prim s) | Obj ps \<Rightarrow> False | Arr es ps \<Rightarrow> False)"

fun nadj :: "string list \<Rightarrow> bool" where
  "nadj (p # q # rest) = (\<not> (isIndex p \<and> isIndex q) \<and> nadj (q # rest))"
| "nadj [p] = True"
| "nadj [] = True"

fun compatible :: "string list \<Rightarrow> string list \<Rightarrow> bool" where
  "compatible (a # as) (b # bs) = (if a = b then compatible as bs else isIndex a = isIndex b)"
| "compatible [] bs = False"
| "compatible (a # as) [] = False"

text \<open>
  The trees \<open>setDeep\<close> builds from such entries: like \<open>wf_value\<close>, but a sequence may have
  holes (it has at least one element) and holds no sequence as an element. \<open>inv_cont\<close> is
  the same for the container \<open>setDeep\<close> is working on, which may still be empty; the root is
  the case \<open>hp = False\<close>, an object whose keys may be all digits.
\<close>

fun inv_value :: "jsval \<Rightarrow> bool"
  and inv_props :: "props \<Rightarrow> bool"
  and inv_elems :: "jsval option list \<Rightarrow> bool" where
  "inv_value (Prim s) = wf_value (Prim s)"
| "inv_value (Obj ps) = (ps \<noteq> [] \<and> inv_props ps)"
| "inv_value (Arr es ps) =
     (ps = [] \<and> length es \<le> 4294967295 \<and> list_ex (\<lambda>e. e \<noteq> None) es \<and> inv_elems es)"
| "inv_props [] = True"
| "inv_props ((k, v) # ps) = (name_ok k \<and> k \<notin> fst ` set ps \<and> inv_value v \<and> inv_props ps)"
| "inv_elems [] = True"
| "inv_elems (e # es) =
     ((case e of None \<Rightarrow> True | Some v \<Rightarrow> \<not> isArray v \<and> inv_value v) \<and> inv_elems es)"

definition inv_cont :: "bool \<Rightarrow> jsval \<Rightarrow> bool" where
  "inv_cont hp cur =
     (local_ok cur \<and>
      (case cur of Arr es ps \<Rightarrow> hp \<and> ps = [] | Obj ps \<Rightarrow> True | Prim s \<Rightarrow> False) \<and>
      (\<forall>p c. child cur p = Some c \<longrightarrow>
         inv_value c \<and> (isArray cur \<or> (if hp then name_ok p else key_ok p))))"

text \<open>All keys of all objects of a tree are non-empty and not \<open>__proto__\<close>.\<close>

fun ne_props :: "props \<Rightarrow> bool"
  and ne_elems :: "jsval option list \<Rightarrow> bool" where
  "ne_props [] = True"
| "ne_props ((k, v) # ps) =
     (k \<noteq> [] \<and> k \<noteq> ''__proto__'' \<and>
      (case v of Obj qs \<Rightarrow> ne_props qs | Arr es b \<Rightarrow> ne_elems es | Prim s \<Rightarrow> True) \<and>
      ne_props ps)"
| "ne_elems [] = True"
| "ne_elems (e # es) =
     ((case e of None \<Rightarrow> True | Some (Obj qs) \<Rightarrow> ne_props qs | Some (Arr a b) \<Rightarrow> True
       | Some (Prim s) \<Rightarrow> True) \<and> ne_elems es)"

text \<open>
  The flat maps of the inverse property. \<open>entry_ok\<close>: every segment of the key is
  non-empty, is not \<open>__proto__\<close> and is canonical when it is all digits, no index follows
  an index after the first segment
  (the first segment is a key of the root object whatever its form), and the value is a
  scalar. \<open>wf_flat\<close>: every entry is \<open>entry_ok\<close> and the keys are pairwise compatible, which
  includes that they are distinct and that none is a prefix of another.
\<close>

definition seg_ok :: "string \<Rightarrow> bool" where
  "seg_ok s = (s \<noteq> [] \<and> s \<noteq> ''__proto__'' \<and> (isIndex s \<longrightarrow> is_array_index s))"

definition entry_ok :: "string \<times> jsval \<Rightarrow> bool" where
  "entry_ok e =
     (list_all seg_ok (split_dot (fst e)) \<and> nadj (tl (split_dot (fst e))) \<and> scalar_ok (snd e))"

fun pairwise_compatible :: "string list list \<Rightarrow> bool" where
  "pairwise_compatible [] = True"
| "pairwise_compatible (a # rest) = (list_all (compatible a) rest \<and> pairwise_compatible rest)"

definition wf_flat :: "props \<Rightarrow> bool" where
  "wf_flat M = (list_all entry_ok M \<and> pairwise_compatible (map (\<lambda>e. split_dot (fst e)) M))"

section \<open>unflatten with the built-in property names\<close>

text \<open>
  The error kinds: the three the specification names, none of which the source raises
  (it has no \<open>throw\<close> in \<open>unflatten\<close>), and \<open>RangeError\<close>, the exception JavaScript raises
  when the \<open>length\<close> of an array is assigned a value that is not an array length.
\<close>

datatype error = MalformedPath | ConflictingSchema | UnsupportedValueType | RangeError

text \<open>
  What a call does: it returns a value, it throws, or it leaves the part of JavaScript
  that is modelled here.
\<close>

datatype 'a outcome = Returns 'a | Throws error | Unmodelled

fun and_then :: "'a outcome \<Rightarrow> ('a \<Rightarrow> 'b outcome) \<Rightarrow> 'b outcome" where
  "and_then (Returns x) f = f x"
| "and_then (Throws e) f = Throws e"
| "and_then Unmodelled f = Unmodelled"

text \<open>
  The subscripts of one pass through the loop body of \<open>setDeep\<close>, on the container \<open>cur\<close>
  with the segment \<open>p\<close>; \<open>isLast\<close> and \<open>nextIsIndex\<close> are \<open>last\<close> and \<open>nextIsIndex\<close> of the
  source.
  \<^item> \<open>__proto__\<close>: \<open>cur[p]\<close> is the prototype of \<open>cur\<close>, an object, so the loop walks into
    \<open>Object.prototype\<close> or replaces the prototype of \<open>cur\<close>: not modelled.
  \<^item> A digit string: \<open>Number(p)\<close> is its value when that is below \<open>2^53\<close>; above, the
    double nearest to it, written back as a key in another form: not modelled.
  \<^item> \<open>length\<close> on an array: \<open>cur[p]\<close> is a number, so a segment that is not the last
    assigns \<open>nextIsIndex ? [] : {}\<close> to it. \<open>cur.length = {}\<close> throws \<open>RangeError\<close>
    (the object converts to \<open>NaN\<close>). \<open>cur.length = []\<close> sets the length to \<open>0\<close> and the
    loop goes on with the number \<open>0\<close> as \<open>cur\<close>, and the last segment assigns the value
    of the entry to the length: neither is modelled.
  \<^item> Every other name is a subscript on an own property, on objects and on arrays.
\<close>

definition subscript_outcome :: "jsval \<Rightarrow> string \<Rightarrow> bool \<Rightarrow> bool \<Rightarrow> unit outcome" where
  "subscript_outcome cur p isLast nextIsIndex =
     (if p = ''__proto__'' then Unmodelled
      else if isIndex p then (if Number p < 9007199254740992 then Returns () else Unmodelled)
      else if isArray cur \<and> p = ''length'' then
        (if isLast \<or> nextIsIndex then Unmodelled else Throws RangeError)
      else Returns ())"

text \<open>
  The loop of \<open>setDeep\<close> from segment \<open>i\<close> on, as \<open>setDeep_at\<close>, with the outcome of the
  subscripts of every pass. An exception ends the call.
\<close>

fun setDeep_outcome :: "bool \<Rightarrow> jsval \<Rightarrow> string list \<Rightarrow> jsval \<Rightarrow> jsval outcome" where
  "setDeep_outcome hasParent cur [] value = Returns cur"
| "setDeep_outcome hasParent cur [p] value =
     (case subscript_outcome cur p True False of
        Returns u \<Rightarrow>
          (let cur' = (if isIndex p \<and> \<not> isArray cur \<and> hasParent then Arr [] [] else cur)
           in Returns (set_seg cur' p value))
      | Throws e \<Rightarrow> Throws e
      | Unmodelled \<Rightarrow> Unmodelled)"
| "setDeep_outcome hasParent cur (p # q # rest) value =
     (case subscript_outcome cur p False (isIndex q) of
        Returns u \<Rightarrow>
          (let cur' = (if isIndex p \<and> \<not> isArray cur \<and> hasParent then Arr [] [] else cur);
               child = (if is_nullish (get_seg cur' p) \<or> \<not> typeof_object (get_seg cur' p)
                        then (if isIndex q then Arr [] [] else Obj [])
                        else get_seg cur' p)
           in (case setDeep_outcome True child (q # rest) value of
                 Returns c \<Rightarrow> Returns (set_seg cur' p c)
               | Throws e \<Rightarrow> Throws e
               | Unmodelled \<Rightarrow> Unmodelled))
      | Throws e \<Rightarrow> Throws e
      | Unmodelled \<Rightarrow> Unmodelled)"

text \<open>
  \<open>unflatten(flatObj)\<close> with its outcome: the loop over the entries stops at the first
  call of \<open>setDeep\<close> that does not return.
\<close>

definition unflatten_outcome :: "props \<Rightarrow> jsval outcome" where
  "unflatten_outcome flatObj =
     fold (\<lambda>(flatKey, value) r.
             and_then r (\<lambda>root.
               if flatKey = [] then Returns root
               else setDeep_outcome False root (split_dot flatKey) value))
          flatObj (Returns (Obj []))"

text \<open>One entry of a flat map, given by its segments, applied to the outcome so far.\<close>

definition setDeep_entry_outcome ::
    "bool \<Rightarrow> string list \<times> jsval \<Rightarrow> jsval outcome \<Rightarrow> jsval outcome" where
  "setDeep_entry_outcome hasParent e r =
     and_then r (\<lambda>cur. setDeep_outcome hasParent cur (fst e) (snd e))"

text \<open>
  Flat maps on which every subscript is one on an own property, whatever the containers:
  no segment is \<open>__proto__\<close> or \<open>length\<close>, and every digit segment is below \<open>2^53\<close>.
\<close>

definition ordinary :: "string \<Rightarrow> bool" where
  "ordinary p = (p \<noteq> ''__proto__'' \<and> p \<noteq> ''length'' \<and>
                 (isIndex p \<longrightarrow> Number p < 9007199254740992))"

definition plain_key :: "string \<Rightarrow> bool" where
  "plain_key k = list_all ordinary (split_dot k)"

definition plain_flat :: "props \<Rightarrow> bool" where
  "plain_flat M = list_all (\<lambda>e. plain_key (fst e)) M"

section \<open>The caller of unflatten\<close>

text \<open>
  \<open>unflatten\<close> of the multi-file converter is not exported; its one caller is
  \<open>processWorkbookToJSON\<close>, which builds the flat map from the rows of the sheet:
  \<^verbatim>\<open>const k = String(r[keyCol] ?? '').trim(); if (!k) continue; flatMap[k] = r[valueCol];\<close>
  A row is given here by the text \<open>String(r[keyCol] ?? '')\<close> of its key cell and the value
  \<open>r[valueCol]\<close> of its value cell.

  \<open>trim\<close> removes white space and line terminators at both ends; of the characters a
  \<open>string\<close> has here these are tab, line feed, vertical tab, form feed, carriage return,
  space and no-break space.
\<close>

definition is_space :: "char \<Rightarrow> bool" where
  "is_space c = (of_char c \<in> {9, 10, 11, 12, 13, 32, 160 :: nat})"

definition trim :: "string \<Rightarrow> string" where
  "trim s = rev (dropWhile is_space (rev (dropWhile is_space s)))"

text \<open>
  The body of the loop over the rows, for the row with the key cell \<open>keyCell\<close> and the
  value \<open>value\<close>. \<open>flatMap[k] = value\<close> writes an own property of \<open>flatMap\<close> unless \<open>k\<close>
  is \<open>__proto__\<close>, which is not modelled.
\<close>

definition flatMap_row :: "string \<Rightarrow> jsval \<Rightarrow> props \<Rightarrow> props outcome" where
  "flatMap_row keyCell value flatMap =
     (let k = trim keyCell
      in if k = [] then Returns flatMap
         else if k = ''__proto__'' then Unmodelled
         else Returns (obj_put k value flatMap))"

text \<open>The loop: \<open>const flatMap = {}; for (const r of rows) { ... }\<close>\<close>

definition build_flatMap :: "(string \<times> jsval) list \<Rightarrow> props outcome" where
  "build_flatMap rows =
     fold (\<lambda>(keyCell, value) r. and_then r (flatMap_row keyCell value)) rows (Returns [])"

text \<open>
  \<open>processWorkbookToJSON\<close> from the rows on (the columns are found by \<open>detectColumns\<close>
  before): the result is \<open>{ keys: Object.keys(flatMap).length, data: nested }\<close>, and
  \<open>{ keys: 0, data: {} }\<close> when there are no rows.
\<close>

definition processWorkbookToJSON :: "(string \<times> jsval) list \<Rightarrow> (nat \<times> jsval) outcome" where
  "processWorkbookToJSON rows =
     (if rows = [] then Returns (0, Obj [])
      else and_then (build_flatMap rows) (\<lambda>flatMap.
             and_then (unflatten_outcome flatMap) (\<lambda>nested.
               Returns (length flatMap, nested))))"

section \<open>Evaluation\<close>

lemmas eval_defs = unflatten_def setDeep_def isIndex_def is_digit_def Number_def digit_val_def
  obj_put_def obj_get_def is_array_index_def arr_put_def arr_get_def is_nullish_def
  coalesce_empty_def flattenJSON_def ToString.simps digit_char_def unflatten2_def
  unflatten_outcome_def setDeep_at.simps setDeep_outcome.simps subscript_outcome_def
  get_seg_def set_seg_def

text \<open>The recursive call of \<open>flattenJSON\<close> on an object is the loop over its entries.\<close>

lemma flattenJSON_Obj: "flattenJSON (Obj qs) nk out = flatten_entries qs nk out"
  by (simp add: flattenJSON_def is_nullish_def)

text \<open>The examples of the specification.\<close>

lemma array_reconstruction_example:
  "unflatten [(''list.0.name'', Prim (Str ''a'')), (''list.1.name'', Prim (Str ''b''))] =
   Obj [(''list'', Arr [Some (Obj [(''name'', Prim (Str ''a''))]),
                         Some (Obj [(''name'', Prim (Str ''b''))])] [])]"
  by (simp add: eval_defs)

lemma scalar_flatten_example:
  "flattenJSON (Obj [(''a'', Obj [(''b'', Prim (Num 1)),
                                   (''c'', Arr [Some (Prim (Num 1)), Some (Prim (Num 2))] [])])]) [] [] =
   [(''a.b'', Prim (Num 1)), (''a.c.0'', Prim (Num 1)), (''a.c.1'', Prim (Num 2))]"
  by (simp add: eval_defs)

text \<open>A sparse sequence: the gap is a hole.\<close>

lemma sparse_example:
  "unflatten [(''a.1'', Prim (Str ''x''))] = Obj [(''a'', Arr [None, Some (Prim (Str ''x''))] [])]"
  by (simp add: eval_defs)

section \<open>Lemmas\<close>

subsection \<open>Strings\<close>

lemma split_dot_nonempty [simp]: "split_dot s \<noteq> []"
  by (induction s) (auto split: list.splits)

lemma split_dot_nodot: "CHR ''.'' \<notin> set s \<Longrightarrow> split_dot s = [s]"
  by (induction s) auto

lemma split_dot_append_dot: "split_dot (a @ CHR ''.'' # b) = split_dot a @ split_dot b"
  by (induction a) (auto split: list.splits)

lemma split_dot_segments_nodot: "s \<in> set (split_dot k) \<Longrightarrow> CHR ''.'' \<notin> set s"
  by (induction k arbitrary: s) (auto split: list.splits if_splits)

lemma digit_cases:
  "d < 10 \<Longrightarrow> d = 0 \<or> d = 1 \<or> d = 2 \<or> d = 3 \<or> d = 4 \<or> d = 5 \<or> d = 6 \<or> d = 7 \<or> d = 8 \<or> d = (9::nat)"
  by arith

lemma digit_char_is_digit: "d < 10 \<Longrightarrow> is_digit (digit_char d)"
  using digit_cases [of d] by (auto simp: is_digit_def digit_char_def)

lemma digit_val_digit_char: "d < 10 \<Longrightarrow> digit_val (digit_char d) = d"
  using digit_cases [of d] by (auto simp: digit_val_def digit_char_def)

lemma is_digit_not_dot: "is_digit c \<Longrightarrow> c \<noteq> CHR ''.''"
  by (auto simp: is_digit_def)

lemma ToString_nonempty [simp]: "ToString n \<noteq> []"
  by (subst ToString.simps) simp

lemma ToString_digits: "list_all is_digit (ToString n)"
proof (induction n rule: ToString.induct)
  case (1 n)
  show ?case
  proof (cases "n < 10")
    case True
    then show ?thesis by (subst ToString.simps) (simp add: digit_char_is_digit)
  next
    case False
    with 1 show ?thesis by (subst ToString.simps) (simp add: digit_char_is_digit)
  qed
qed

lemma isIndex_ToString [simp]: "isIndex (ToString n)"
  by (simp add: isIndex_def ToString_digits)

lemma ToString_nodot [simp]: "CHR ''.'' \<notin> set (ToString n)"
  using ToString_digits [of n] is_digit_not_dot by (auto simp: list_all_iff)

lemma Number_snoc: "Number (s @ [c]) = 10 * Number s + digit_val c"
  by (simp add: Number_def)

lemma Number_ToString [simp]: "Number (ToString n) = n"
proof (induction n rule: ToString.induct)
  case (1 n)
  show ?case
  proof (cases "n < 10")
    case True
    then show ?thesis
      by (subst ToString.simps) (simp add: Number_def digit_val_digit_char)
  next
    case False
    with 1 show ?thesis
      by (subst ToString.simps) (simp add: Number_snoc digit_val_digit_char)
  qed
qed

lemma ToString_inj: "ToString m = ToString n \<Longrightarrow> m = n"
  by (metis Number_ToString)

lemma is_array_index_ToString [simp]: "is_array_index (ToString n) = (n < 4294967295)"
  by (simp add: is_array_index_def)

lemma is_array_index_isIndex: "is_array_index k \<Longrightarrow> isIndex k"
  by (simp add: is_array_index_def)

lemma isIndex_nodot: "isIndex k \<Longrightarrow> CHR ''.'' \<notin> set k"
  using is_digit_not_dot by (auto simp: isIndex_def list_all_iff)

subsection \<open>Properties\<close>

lemma keys_replace_value [simp]: "map fst (replace_value k v ps) = map fst ps"
  by (induction ps) auto

lemma keyset_replace_value [simp]: "fst ` set (replace_value k v ps) = fst ` set ps"
  by (simp only: set_map [symmetric] keys_replace_value)

lemma keyset_insert_index_key [simp]:
  "fst ` set (insert_index_key k v ps) = insert k (fst ` set ps)"
proof (induction ps)
  case Nil
  show ?case by simp
next
  case (Cons a ps)
  then show ?case by (cases a) (simp add: insert_commute)
qed

lemma keyset_obj_put [simp]: "fst ` set (obj_put k v ps) = insert k (fst ` set ps)"
  by (auto simp: obj_put_def)

lemma map_of_replace_value:
  "map_of (replace_value k v ps) k' =
     (if k' = k \<and> map_of ps k \<noteq> None then Some v else map_of ps k')"
  by (induction ps) auto

lemma map_of_insert_index_key:
  "k \<notin> fst ` set ps \<Longrightarrow>
   map_of (insert_index_key k v ps) k' = (if k' = k then Some v else map_of ps k')"
  by (induction ps) (auto simp: image_iff)

lemma map_of_append_fresh:
  "k \<notin> fst ` set ps \<Longrightarrow> map_of (ps @ [(k, v)]) k' = (if k' = k then Some v else map_of ps k')"
  by (induction ps) (auto simp: image_iff)

lemma map_of_obj_put [simp]:
  "map_of (obj_put k v ps) k' = (if k' = k then Some v else map_of ps k')"
  unfolding obj_put_def
  by (simp add: map_of_replace_value map_of_insert_index_key map_of_append_fresh
        map_of_eq_None_iff del: map_of_append)

lemma obj_get_put [simp]: "obj_get (obj_put k v ps) k' = (if k' = k then v else obj_get ps k')"
  by (simp add: obj_get_def)

lemma replace_value_twice [simp]:
  "replace_value k w (replace_value k v ps) = replace_value k w ps"
  by (induction ps) auto

lemma replace_value_insert [simp]:
  "k \<notin> fst ` set ps \<Longrightarrow> replace_value k w (insert_index_key k v ps) = insert_index_key k w ps"
  by (induction ps) (auto simp: image_iff)

lemma replace_value_append [simp]:
  "k \<notin> fst ` set ps \<Longrightarrow> replace_value k w (ps @ [(k, v)]) = ps @ [(k, w)]"
  by (induction ps) (auto simp: image_iff)

lemma obj_put_put [simp]: "obj_put k w (obj_put k v ps) = obj_put k w ps"
proof -
  have "obj_put k w (obj_put k v ps) = replace_value k w (obj_put k v ps)"
    unfolding obj_put_def [of k w] by simp
  then show ?thesis by (auto simp: obj_put_def)
qed

lemma replace_value_same: "map_of ps k = Some v \<Longrightarrow> replace_value k v ps = ps"
  by (induction ps) (auto split: if_splits)

lemma obj_put_same: "map_of ps k = Some v \<Longrightarrow> obj_put k v ps = ps"
proof -
  assume a: "map_of ps k = Some v"
  then have "k \<in> fst ` set ps" by (metis domI dom_map_of_conv_image_fst)
  with a show ?thesis by (simp add: obj_put_def replace_value_same)
qed

lemma obj_put_fresh:
  "k \<notin> fst ` set ps \<Longrightarrow> \<not> is_array_index k \<Longrightarrow> obj_put k v ps = ps @ [(k, v)]"
  by (simp add: obj_put_def)

subsection \<open>Array elements\<close>

lemma arr_get_put [simp]: "arr_get (arr_put i v es) j = (if j = i then v else arr_get es j)"
  by (auto simp: arr_get_def arr_put_def nth_append)

lemma list_update_end:
  "i = length xs \<Longrightarrow> (xs @ [x])[i := y] = xs @ [y]"
  by simp

lemma arr_put_put [simp]: "arr_put i w (arr_put i v es) = arr_put i w es"
proof (cases "i < length es")
  case True
  then show ?thesis by (simp add: arr_put_def)
next
  case False
  have "((es @ replicate (i - length es) None) @ [Some v])[i := Some w] =
        (es @ replicate (i - length es) None) @ [Some w]"
    using False by (intro list_update_end) simp
  with False show ?thesis by (simp add: arr_put_def)
qed

lemma arr_put_same: "arr_get es i = v \<Longrightarrow> is_container v \<Longrightarrow> arr_put i v es = es"
  by (auto simp: arr_get_def arr_put_def is_container_def list_update_same_conv split: if_splits option.splits)

lemma arr_put_length [simp]: "arr_put (length es) v es = es @ [Some v]"
  by (simp add: arr_put_def)

lemma arr_get_beyond [simp]: "length es \<le> i \<Longrightarrow> arr_get es i = Prim Undefined"
  by (simp add: arr_get_def)

subsection \<open>Containers and subscripts\<close>

lemma container_test: "(is_nullish v \<or> \<not> typeof_object v) = (\<not> is_container v)"
  by (cases v) (auto simp: is_nullish_def is_container_def)

lemma is_container_simps [simp]:
  "is_container (Obj ps)" "is_container (Arr es ps)" "\<not> is_container (Prim s)"
  by (simp_all add: is_container_def)

lemma get_set_seg [simp]: "is_container cur \<Longrightarrow> get_seg (set_seg cur p v) p = v"
  by (cases cur) (auto simp: get_seg_def set_seg_def)

lemma set_set_seg [simp]: "set_seg (set_seg cur p v) p w = set_seg cur p w"
  by (cases cur) (auto simp: set_seg_def)

lemma set_get_seg: "is_container (get_seg cur p) \<Longrightarrow> set_seg cur p (get_seg cur p) = cur"
  by (cases cur)
     (auto simp: get_seg_def set_seg_def obj_get_def arr_put_same obj_put_same
           split: if_splits option.splits)

lemma isArray_set_seg [simp]: "isArray (set_seg cur p v) = isArray cur"
  by (cases cur) (auto simp: set_seg_def)

lemma is_container_set_seg [simp]: "is_container (set_seg cur p v) = is_container cur"
  by (cases cur) (auto simp: set_seg_def)

subsection \<open>One step of setDeep\<close>

lemma setDeep_at_single:
  "isIndex p \<longrightarrow> \<not> hp \<or> isArray cur \<Longrightarrow> setDeep_at hp cur [p] v = set_seg cur p v"
  by (auto simp: set_seg_def)

lemma setDeep_at_Cons:
  assumes "segs \<noteq> []" and "isIndex p \<longrightarrow> \<not> hp \<or> isArray cur"
  shows "setDeep_at hp cur (p # segs) v =
         set_seg cur p (setDeep_at True
           (if is_container (get_seg cur p) then get_seg cur p else fresh_for (hd segs)) segs v)"
proof -
  from assms(1) obtain q rest where segs: "segs = q # rest" by (cases segs) auto
  show ?thesis
    using assms(2) unfolding segs
    by (auto simp: set_seg_def get_seg_def container_test fresh_for_def Let_def)
qed

lemma is_container_setDeep_at:
  assumes c: "is_container cur"
  shows "is_container (setDeep_at hp cur segs v)"
proof (cases segs)
  case Nil
  with c show ?thesis by simp
next
  case (Cons p rest)
  show ?thesis
  proof (cases rest)
    case Nil
    with Cons c show ?thesis by (cases cur) (auto simp: Let_def)
  next
    case (Cons q rest')
    with \<open>segs = p # rest\<close> c show ?thesis by (cases cur) (auto simp: Let_def)
  qed
qed

lemma isArray_setDeep_at:
  assumes c: "isIndex (hd segs) \<longrightarrow> \<not> hp \<or> isArray cur"
  shows "isArray (setDeep_at hp cur segs v) = isArray cur"
proof (cases segs)
  case Nil
  then show ?thesis by simp
next
  case (Cons p rest)
  show ?thesis
  proof (cases rest)
    case Nil
    with Cons c show ?thesis by (cases cur) (auto simp: Let_def)
  next
    case (Cons q rest')
    with \<open>segs = p # rest\<close> c show ?thesis by (cases cur) (auto simp: Let_def)
  qed
qed

subsection \<open>Entries below one segment\<close>

lemma fold_descend:
  assumes "is_container (get_seg cur p)" and "is_container cur"
    and "isIndex p \<longrightarrow> \<not> hp \<or> isArray cur"
    and "\<forall>e \<in> set E. fst e \<noteq> []"
  shows "fold (setDeep_entry hp) (map (\<lambda>(segs, w). (p # segs, w)) E) cur =
         set_seg cur p (fold (setDeep_entry True) E (get_seg cur p))"
  using assms
proof (induction E arbitrary: cur)
  case Nil
  then show ?case by (simp add: set_get_seg)
next
  case (Cons e E)
  obtain segs w where e: "e = (segs, w)" by (cases e)
  let ?c1 = "setDeep_at True (get_seg cur p) segs w"
  let ?cur1 = "set_seg cur p ?c1"
  from Cons.prems e have segs: "segs \<noteq> []" by simp
  have step: "setDeep_entry hp (p # segs, w) cur = ?cur1"
    using Cons.prems segs by (simp add: setDeep_entry_def setDeep_at_Cons)
  have c1: "is_container ?c1"
    using Cons.prems(1) by (rule is_container_setDeep_at)
  have inner: "setDeep_entry True (segs, w) (get_seg cur p) = ?c1"
    by (simp add: setDeep_entry_def)
  have "fold (setDeep_entry hp) (map (\<lambda>(segs, w). (p # segs, w)) E) ?cur1 =
        set_seg ?cur1 p (fold (setDeep_entry True) E (get_seg ?cur1 p))"
    using Cons.prems c1 by (intro Cons.IH) simp_all
  then show ?case
    using Cons.prems(2) by (simp add: e step inner)
qed

lemma fold_descend_new:
  assumes "\<not> is_container (get_seg cur p)" and "is_container cur"
    and "isIndex p \<longrightarrow> \<not> hp \<or> isArray cur"
    and "\<forall>e \<in> set E. fst e \<noteq> []" and "E \<noteq> []"
  shows "fold (setDeep_entry hp) (map (\<lambda>(segs, w). (p # segs, w)) E) cur =
         set_seg cur p (fold (setDeep_entry True) E (fresh_for (hd (fst (hd E)))))"
proof -
  from assms(5) obtain e E' where E: "E = e # E'" by (cases E) auto
  obtain segs w where e: "e = (segs, w)" by (cases e)
  let ?c1 = "setDeep_at True (fresh_for (hd segs)) segs w"
  let ?cur1 = "set_seg cur p ?c1"
  from assms(4) E e have segs: "segs \<noteq> []" by simp
  have step: "setDeep_entry hp (p # segs, w) cur = ?cur1"
    using assms segs by (simp add: setDeep_entry_def setDeep_at_Cons)
  have c1: "is_container ?c1"
    by (rule is_container_setDeep_at) (simp add: fresh_for_def)
  have inner: "setDeep_entry True (segs, w) (fresh_for (hd segs)) = ?c1"
    by (simp add: setDeep_entry_def)
  have "fold (setDeep_entry hp) (map (\<lambda>(segs, w). (p # segs, w)) E') ?cur1 =
        set_seg ?cur1 p (fold (setDeep_entry True) E' (get_seg ?cur1 p))"
    using assms E c1 by (intro fold_descend) simp_all
  then show ?thesis
    using assms(2) by (simp add: E e step inner)
qed

subsection \<open>The paths of a tree\<close>

lemma paths_segs_nonempty:
  "\<forall>e \<in> set (paths_entries ps). fst e \<noteq> []"
  "\<forall>e \<in> set (paths_forEach es i). fst e \<noteq> []"
proof (induction ps and es i rule: paths_entries_paths_forEach.induct)
  case 1
  show ?case by simp
next
  case (2 k v rest)
  then show ?case by (cases v) auto
next
  case (3 i)
  show ?case by simp
next
  case (4 e es i)
  show ?case
  proof (cases e)
    case None
    with 4 show ?thesis by simp
  next
    case (Some v)
    with 4 show ?thesis by (cases v) auto
  qed
qed

lemma paths_first:
  "wf_props ps \<Longrightarrow> ps \<noteq> [] \<Longrightarrow>
     paths_entries ps \<noteq> [] \<and> \<not> isIndex (hd (fst (hd (paths_entries ps))))"
  "wf_elems es \<Longrightarrow> es \<noteq> [] \<Longrightarrow>
     paths_forEach es i \<noteq> [] \<and> isIndex (hd (fst (hd (paths_forEach es i))))"
proof (induction ps and es i rule: paths_entries_paths_forEach.induct)
  case 1
  then show ?case by simp
next
  case (2 k v rest)
  then show ?case
    by (cases v) (auto simp: hd_append hd_map name_ok_def split_beta)
next
  case (3 i)
  then show ?case by simp
next
  case (4 e es i)
  then show ?case
    by (auto simp: hd_append hd_map split_beta split: option.splits jsval.splits)
qed

subsection \<open>Rebuilding a well-formed tree from its paths\<close>

lemma fresh_for_simps [simp]:
  "isIndex q \<Longrightarrow> fresh_for q = Arr [] []" "\<not> isIndex q \<Longrightarrow> fresh_for q = Obj []"
  by (simp_all add: fresh_for_def)

lemma wf_prim_coalesce: "wf_value (Prim s) \<Longrightarrow> coalesce_empty s = s"
  by (cases s) (auto simp: coalesce_empty_def)

lemma get_seg_absent_name:
  "\<not> isIndex k \<Longrightarrow> k \<notin> fst ` set acc \<Longrightarrow> \<not> is_container (get_seg (Obj acc) k)"
  by (simp add: get_seg_def obj_get_def map_of_eq_None_iff [THEN iffD2])

lemma get_seg_absent_index:
  "length acc \<le> i \<Longrightarrow> i < 4294967295 \<Longrightarrow> \<not> is_container (get_seg (Arr acc []) (ToString i))"
  by (simp add: get_seg_def)

lemma set_seg_new_name:
  "name_ok k \<Longrightarrow> k \<notin> fst ` set acc \<Longrightarrow> set_seg (Obj acc) k v = Obj (acc @ [(k, v)])"
  by (simp add: set_seg_def name_ok_def obj_put_fresh is_array_index_def)

lemma arr_put_next: "length es = i \<Longrightarrow> arr_put i v es = es @ [Some v]"
  by (simp add: arr_put_def)

lemma set_seg_next_index:
  "length acc = i \<Longrightarrow> i < 4294967295 \<Longrightarrow>
   set_seg (Arr acc []) (ToString i) v = Arr (acc @ [Some v]) []"
  by (simp add: set_seg_def arr_put_next)

lemma build:
  "wf_props ps \<Longrightarrow> fst ` set acc \<inter> fst ` set ps = {} \<Longrightarrow>
     fold (setDeep_entry hp) (paths_entries ps) (Obj acc) = Obj (acc @ ps)"
  "wf_elems es \<Longrightarrow> length acc' = i \<Longrightarrow> i + length es \<le> 4294967295 \<Longrightarrow>
     fold (setDeep_entry hp') (paths_forEach es i) (Arr acc' []) = Arr (acc' @ es) []"
proof (induction ps and es i arbitrary: acc hp and acc' hp'
       rule: paths_entries_paths_forEach.induct)
  case 1
  then show ?case by simp
next
  case (2 k v rest)
  from "2.prems" have k: "name_ok k" "k \<notin> fst ` set rest" "k \<notin> fst ` set acc"
    and v: "wf_value v" and rest: "wf_props rest"
    and disj: "fst ` set (acc @ [(k, v)]) \<inter> fst ` set rest = {}"
    by auto
  from k have nk: "\<not> isIndex k" by (simp add: name_ok_def)
  then have nai: "\<not> is_array_index k" by (simp add: is_array_index_def)
  have first: "fold (setDeep_entry hp)
                 (case v of
                    Obj qs \<Rightarrow> map (\<lambda>(segs, w). (k # segs, w)) (paths_entries qs)
                  | Arr es ps \<Rightarrow> map (\<lambda>(segs, w). (k # segs, w)) (paths_forEach es 0)
                  | Prim s \<Rightarrow> [([k], Prim (coalesce_empty s))]) (Obj acc) =
               Obj (acc @ [(k, v)])"
  proof (cases v)
    case (Prim s)
    with v k nk nai show ?thesis
      by (simp add: wf_prim_coalesce setDeep_entry_def obj_put_fresh)
  next
    case (Obj qs)
    with v have qs: "qs \<noteq> []" "wf_props qs" by auto
    have "fold (setDeep_entry hp) (map (\<lambda>(segs, w). (k # segs, w)) (paths_entries qs)) (Obj acc) =
          set_seg (Obj acc) k
            (fold (setDeep_entry True) (paths_entries qs)
               (fresh_for (hd (fst (hd (paths_entries qs))))))"
      using k paths_first(1) [OF qs(2) qs(1)] paths_segs_nonempty(1) [of qs]
      by (intro fold_descend_new) (simp_all add: get_seg_absent_name nk)
    also have "fresh_for (hd (fst (hd (paths_entries qs)))) = Obj []"
      using paths_first(1) [OF qs(2) qs(1)] by simp
    also have "fold (setDeep_entry True) (paths_entries qs) (Obj []) = Obj ([] @ qs)"
      using qs(2) by (intro "2.IH"(1) [OF Obj]) simp_all
    finally show ?thesis using Obj k by (simp add: set_seg_new_name)
  next
    case (Arr es ps)
    with v have es: "es \<noteq> []" "wf_elems es" "ps = []" "length es \<le> 4294967295" by auto
    have "fold (setDeep_entry hp) (map (\<lambda>(segs, w). (k # segs, w)) (paths_forEach es 0)) (Obj acc) =
          set_seg (Obj acc) k
            (fold (setDeep_entry True) (paths_forEach es 0)
               (fresh_for (hd (fst (hd (paths_forEach es 0))))))"
      using k paths_first(2) [OF es(2) es(1), of 0] paths_segs_nonempty(2) [of es 0]
      by (intro fold_descend_new) (simp_all add: get_seg_absent_name nk)
    also have "fresh_for (hd (fst (hd (paths_forEach es 0)))) = Arr [] []"
      using paths_first(2) [OF es(2) es(1), of 0] by simp
    also have "fold (setDeep_entry True) (paths_forEach es 0) (Arr [] []) = Arr ([] @ es) []"
      using es by (intro "2.IH"(2) [OF Arr]) simp_all
    finally show ?thesis using Arr k es by (simp add: set_seg_new_name)
  qed
  have "fold (setDeep_entry hp) (paths_entries rest) (Obj (acc @ [(k, v)])) =
        Obj ((acc @ [(k, v)]) @ rest)"
    using rest disj by (rule "2.IH"(3))
  with first show ?case by simp
next
  case (3 i)
  then show ?case by simp
next
  case (4 e es i)
  from "4.prems" obtain v where e: "e = Some v" and v: "wf_value v" and es: "wf_elems es"
    by (auto split: option.splits)
  from "4.prems" have i: "length acc' = i" "i < 4294967295" "Suc i + length es \<le> 4294967295"
    by auto
  have first: "fold (setDeep_entry hp')
                 (case e of
                    None \<Rightarrow> []
                  | Some (Obj qs) \<Rightarrow> map (\<lambda>(segs, w). (ToString i # segs, w)) (paths_entries qs)
                  | Some (Arr a b) \<Rightarrow> [([ToString i], Arr a b)]
                  | Some (Prim s) \<Rightarrow> [([ToString i], Prim (coalesce_empty s))]) (Arr acc' []) =
               Arr (acc' @ [e]) []"
  proof (cases v)
    case (Prim s)
    with v e i show ?thesis
      by (simp add: wf_prim_coalesce setDeep_entry_def arr_put_next)
  next
    case (Arr a b)
    with v e i show ?thesis
      by (simp add: setDeep_entry_def arr_put_next)
  next
    case (Obj qs)
    with v have qs: "qs \<noteq> []" "wf_props qs" by auto
    have "fold (setDeep_entry hp') (map (\<lambda>(segs, w). (ToString i # segs, w)) (paths_entries qs))
            (Arr acc' []) =
          set_seg (Arr acc' []) (ToString i)
            (fold (setDeep_entry True) (paths_entries qs)
               (fresh_for (hd (fst (hd (paths_entries qs))))))"
      using i paths_first(1) [OF qs(2) qs(1)] paths_segs_nonempty(1) [of qs]
      by (intro fold_descend_new) (simp_all add: get_seg_absent_index)
    also have "fresh_for (hd (fst (hd (paths_entries qs)))) = Obj []"
      using paths_first(1) [OF qs(2) qs(1)] by simp
    also have "fold (setDeep_entry True) (paths_entries qs) (Obj []) = Obj ([] @ qs)"
      using qs(2) e by (intro "4.IH"(1) [OF _ Obj]) simp_all
    finally show ?thesis using Obj e i by (simp add: set_seg_next_index)
  qed
  have "fold (setDeep_entry hp') (paths_forEach es (Suc i)) (Arr (acc' @ [e]) []) =
        Arr ((acc' @ [e]) @ es) []"
    using es i by (intro "4.IH"(2)) simp_all
  with first show ?case by simp
qed

subsection \<open>flattenJSON writes the paths of the tree\<close>

lemma dot_not_proto: "a @ CHR ''.'' # b \<noteq> ''__proto__''"
proof
  assume "a @ CHR ''.'' # b = ''__proto__''"
  then have "CHR ''.'' \<in> set ''__proto__''" by (metis in_set_conv_decomp)
  then show False by simp
qed

lemma keyed_Cons:
  "map (keyed pk) (map (\<lambda>(segs, w). (k # segs, w)) E) =
   map (keyed (if pk \<noteq> [] then pk @ ''.'' @ k else k)) E"
  by (simp add: keyed_def split_beta)

lemma flatten_paths:
  "wf_props ps \<Longrightarrow>
     flatten_entries ps pk out = fold put_entry (map (keyed pk) (paths_entries ps)) out"
  "wf_elems es \<Longrightarrow> nk \<noteq> [] \<Longrightarrow>
     flatten_forEach es i nk out' = fold put_entry (map (keyed nk) (paths_forEach es i)) out'"
proof (induction ps and es i arbitrary: pk out and nk out'
       rule: paths_entries_paths_forEach.induct)
  case 1
  show ?case by simp
next
  case (2 k v rest)
  let ?nk = "if pk \<noteq> [] then pk @ ''.'' @ k else k"
  from "2.prems" have k: "k \<noteq> []" "k \<noteq> ''__proto__''" and v: "wf_value v"
    and rest: "wf_props rest"
    by (auto simp: name_ok_def)
  then have nk: "?nk \<noteq> []" by simp
  from k have np: "?nk \<noteq> ''__proto__''" by (simp add: dot_not_proto)
  have first: "(case v of
                  Obj qs \<Rightarrow> flatten_entries qs ?nk out
                | Arr es ps \<Rightarrow> flatten_forEach es 0 ?nk out
                | Prim s \<Rightarrow> (if ?nk = ''__proto__'' then out
                            else obj_put ?nk (Prim (coalesce_empty s)) out)) =
               fold put_entry (map (keyed pk)
                 (case v of
                    Obj qs \<Rightarrow> map (\<lambda>(segs, w). (k # segs, w)) (paths_entries qs)
                  | Arr es ps \<Rightarrow> map (\<lambda>(segs, w). (k # segs, w)) (paths_forEach es 0)
                  | Prim s \<Rightarrow> [([k], Prim (coalesce_empty s))])) out"
  proof (cases v)
    case (Prim s)
    with np show ?thesis by (simp add: keyed_def put_entry_def)
  next
    case (Obj qs)
    with v have "wf_props qs" by simp
    then have "flatten_entries qs ?nk out = fold put_entry (map (keyed ?nk) (paths_entries qs)) out"
      by (rule "2.IH"(1) [OF Obj])
    with Obj show ?thesis by (simp only: jsval.case keyed_Cons)
  next
    case (Arr es ps)
    with v have "wf_elems es" by simp
    then have "flatten_forEach es 0 ?nk out =
               fold put_entry (map (keyed ?nk) (paths_forEach es 0)) out"
      using nk by (rule "2.IH"(2) [OF Arr])
    with Arr show ?thesis by (simp only: jsval.case keyed_Cons)
  qed
  show ?case
    using "2.IH"(3) [OF rest] by (simp add: first Let_def)
next
  case (3 i)
  show ?case by simp
next
  case (4 e es i)
  let ?nki = "nk @ ''.'' @ ToString i"
  from "4.prems" obtain v where e: "e = Some v" and v: "wf_value v" and es: "wf_elems es"
    by (auto split: option.splits)
  from "4.prems" have nk: "nk \<noteq> []" by simp
  then have key1: "\<And>segs. key_of nk (ToString i # segs) = key_of ?nki segs" by simp
  have first: "(case e of
                  None \<Rightarrow> out'
                | Some (Obj qs) \<Rightarrow> flatten_entries qs ?nki out'
                | Some (Arr a b) \<Rightarrow> obj_put ?nki (Arr a b) out'
                | Some (Prim s) \<Rightarrow> obj_put ?nki (Prim (coalesce_empty s)) out') =
               fold put_entry (map (keyed nk)
                 (case e of
                    None \<Rightarrow> []
                  | Some (Obj qs) \<Rightarrow> map (\<lambda>(segs, w). (ToString i # segs, w)) (paths_entries qs)
                  | Some (Arr a b) \<Rightarrow> [([ToString i], Arr a b)]
                  | Some (Prim s) \<Rightarrow> [([ToString i], Prim (coalesce_empty s))])) out'"
  proof (cases v)
    case (Prim s)
    with e nk show ?thesis by (simp add: keyed_def put_entry_def)
  next
    case (Arr a b)
    with e nk show ?thesis by (simp add: keyed_def put_entry_def)
  next
    case (Obj qs)
    with v have "wf_props qs" by simp
    then have "flatten_entries qs ?nki out' = fold put_entry (map (keyed ?nki) (paths_entries qs)) out'"
      by (rule "4.IH"(1) [OF e Obj])
    with Obj e show ?thesis
      by (simp only: option.case jsval.case keyed_Cons nk if_True not_False_eq_True)
  qed
  show ?case
    using "4.IH"(2) [OF es nk] by (simp add: first)
qed

subsection \<open>Keys and their segments\<close>

lemma key_of_split:
  "pk \<noteq> [] \<Longrightarrow> \<forall>s \<in> set segs. CHR ''.'' \<notin> set s \<Longrightarrow>
   key_of pk segs \<noteq> [] \<and> split_dot (key_of pk segs) = split_dot pk @ segs"
proof (induction segs arbitrary: pk)
  case Nil
  then show ?case by simp
next
  case (Cons s segs)
  have "key_of (pk @ ''.'' @ s) segs \<noteq> [] \<and>
        split_dot (key_of (pk @ ''.'' @ s) segs) = split_dot (pk @ ''.'' @ s) @ segs"
    using Cons.prems by (intro Cons.IH) simp_all
  with Cons.prems show ?case
    by (simp add: split_dot_append_dot split_dot_nodot)
qed

lemma key_of_top:
  assumes "segs \<noteq> []" and "\<forall>s \<in> set segs. s \<noteq> [] \<and> CHR ''.'' \<notin> set s"
  shows "key_of [] segs \<noteq> [] \<and> split_dot (key_of [] segs) = segs"
proof -
  from assms(1) obtain s rest where segs: "segs = s # rest" by (cases segs) auto
  with assms(2) have "key_of s rest \<noteq> [] \<and> split_dot (key_of s rest) = split_dot s @ rest"
    by (intro key_of_split) simp_all
  with segs assms(2) show ?thesis by (simp add: split_dot_nodot)
qed

lemma paths_segs_all:
  "wf_props ps \<Longrightarrow> (segs, w) \<in> set (paths_entries ps) \<Longrightarrow>
     list_all (\<lambda>s. s \<noteq> [] \<and> CHR ''.'' \<notin> set s) segs"
  "wf_elems es \<Longrightarrow> (segs', w') \<in> set (paths_forEach es i) \<Longrightarrow>
     list_all (\<lambda>s. s \<noteq> [] \<and> CHR ''.'' \<notin> set s) segs'"
proof (induction ps and es i arbitrary: segs w and segs' w'
       rule: paths_entries_paths_forEach.induct)
  case 1
  then show ?case by simp
next
  case (2 k v rest)
  then show ?case by (cases v) (auto simp: name_ok_def)
next
  case (3 i)
  then show ?case by simp
next
  case (4 e es i)
  show ?case
  proof (cases e)
    case None
    with 4 show ?thesis by simp
  next
    case (Some v)
    with 4 show ?thesis by (cases v) auto
  qed
qed

lemma paths_segs_ok:
  "wf_props ps \<Longrightarrow> (segs, w) \<in> set (paths_entries ps) \<Longrightarrow>
     \<forall>s \<in> set segs. s \<noteq> [] \<and> CHR ''.'' \<notin> set s"
  using paths_segs_all(1) [of ps segs w] by (simp add: list_all_iff)

lemma paths_heads:
  "(segs, w) \<in> set (paths_entries ps) \<Longrightarrow> hd segs \<in> fst ` set ps"
  "(segs', w') \<in> set (paths_forEach es i) \<Longrightarrow> \<exists>j\<ge>i. hd segs' = ToString j"
proof (induction ps and es i arbitrary: segs w and segs' w'
       rule: paths_entries_paths_forEach.induct)
  case 1
  then show ?case by simp
next
  case (2 k v rest)
  then show ?case by (cases v) auto
next
  case (3 i)
  then show ?case by simp
next
  case (4 x es i)
  show ?case
  proof (cases x)
    case None
    with 4 show ?thesis by (auto dest!: "4.IH"(2) intro: Suc_leD)
  next
    case (Some v)
    with 4 show ?thesis
      by (cases v) (auto dest!: "4.IH"(2) intro: Suc_leD)
  qed
qed

lemma distinct_map_Cons:
  "distinct (map fst E) \<Longrightarrow> distinct (map fst (map (\<lambda>(segs, w). (k # segs, w)) E))"
  by (simp add: distinct_map comp_def split_beta inj_on_def)

lemma paths_distinct:
  "wf_props ps \<Longrightarrow> distinct (map fst (paths_entries ps))"
  "wf_elems es \<Longrightarrow> distinct (map fst (paths_forEach es i))"
proof (induction ps and es i rule: paths_entries_paths_forEach.induct)
  case 1
  show ?case by simp
next
  case (2 k v rest)
  from "2.prems" have k: "k \<notin> fst ` set rest" and v: "wf_value v" and rest: "wf_props rest"
    by auto
  have heads: "\<forall>e \<in> set (paths_entries rest). hd (fst e) \<noteq> k"
    using k paths_heads(1) [of _ _ rest] by (metis prod.collapse)
  have d: "distinct (map fst (paths_entries rest))" using rest by (rule "2.IH"(3))
  show ?case
  proof (cases v)
    case (Prim s)
    with d heads show ?thesis by force
  next
    case (Obj qs)
    with v have "distinct (map fst (paths_entries qs))" by (intro "2.IH"(1)) simp_all
    then have "distinct (map fst (map (\<lambda>(segs, w). (k # segs, w)) (paths_entries qs)))"
      by (rule distinct_map_Cons)
    with Obj d heads show ?thesis by (fastforce simp: split_beta)
  next
    case (Arr es ps)
    with v have "distinct (map fst (paths_forEach es 0))" by (intro "2.IH"(2)) simp_all
    then have "distinct (map fst (map (\<lambda>(segs, w). (k # segs, w)) (paths_forEach es 0)))"
      by (rule distinct_map_Cons)
    with Arr d heads show ?thesis by (fastforce simp: split_beta)
  qed
next
  case (3 i)
  show ?case by simp
next
  case (4 e es i)
  from "4.prems" obtain v where e: "e = Some v" and v: "wf_value v" and es: "wf_elems es"
    by (auto split: option.splits)
  have heads: "\<forall>x \<in> set (paths_forEach es (Suc i)). hd (fst x) \<noteq> ToString i"
  proof
    fix x assume "x \<in> set (paths_forEach es (Suc i))"
    then obtain j where "Suc i \<le> j" "hd (fst x) = ToString j"
      using paths_heads(2) [of "fst x" "snd x" es "Suc i"] by auto
    then show "hd (fst x) \<noteq> ToString i" by (auto dest: ToString_inj)
  qed
  have d: "distinct (map fst (paths_forEach es (Suc i)))" using es by (rule "4.IH"(2))
  show ?case
  proof (cases v)
    case (Prim s)
    with e d heads show ?thesis by force
  next
    case (Arr a b)
    with e d heads show ?thesis by force
  next
    case (Obj qs)
    with v e have "distinct (map fst (paths_entries qs))" by (intro "4.IH"(1)) simp_all
    then have "distinct (map fst (map (\<lambda>(segs, w). (ToString i # segs, w)) (paths_entries qs)))"
      by (rule distinct_map_Cons)
    with Obj e d heads show ?thesis by (fastforce simp: split_beta)
  qed
qed

lemma wf_props_keys: "wf_props ps \<Longrightarrow> (k, v) \<in> set ps \<Longrightarrow> name_ok k"
  by (induction ps) auto

lemma paths_head_name:
  "wf_props ps \<Longrightarrow> (segs, w) \<in> set (paths_entries ps) \<Longrightarrow> \<not> isIndex (hd segs)"
  using paths_heads(1) [of segs w ps] wf_props_keys [of ps "hd segs"]
  by (auto simp: name_ok_def)

lemma fold_put_fresh:
  "distinct (map fst xs) \<Longrightarrow> \<forall>k \<in> fst ` set xs. \<not> is_array_index k \<Longrightarrow>
   fst ` set out \<inter> fst ` set xs = {} \<Longrightarrow> fold put_entry xs out = out @ xs"
proof (induction xs arbitrary: out)
  case Nil
  show ?case by simp
next
  case (Cons x xs)
  have "put_entry x out = out @ [x]"
    using Cons.prems by (simp add: put_entry_def obj_put_fresh)
  moreover have "fold put_entry xs (out @ [x]) = (out @ [x]) @ xs"
    using Cons.prems by (intro Cons.IH) auto
  ultimately show ?case by simp
qed

lemma top_key:
  assumes "wf_props ps" and "(segs, w) \<in> set (paths_entries ps)"
  shows "key_of [] segs \<noteq> []" and "split_dot (key_of [] segs) = segs"
    and "\<not> is_array_index (key_of [] segs)"
proof -
  have ne: "segs \<noteq> []" using paths_segs_nonempty(1) [of ps] assms(2) by auto
  have ok: "\<forall>s \<in> set segs. s \<noteq> [] \<and> CHR ''.'' \<notin> set s"
    using assms by (rule paths_segs_ok)
  from key_of_top [OF ne ok]
  show 1: "key_of [] segs \<noteq> []" and 2: "split_dot (key_of [] segs) = segs" by simp_all
  show "\<not> is_array_index (key_of [] segs)"
  proof
    assume "is_array_index (key_of [] segs)"
    then have i: "isIndex (key_of [] segs)" by (rule is_array_index_isIndex)
    then have "split_dot (key_of [] segs) = [key_of [] segs]"
      by (intro split_dot_nodot isIndex_nodot)
    with 2 have "segs = [key_of [] segs]" by simp
    then have "hd segs = key_of [] segs" by (metis list.sel(1))
    with i paths_head_name [OF assms] show False by simp
  qed
qed

lemma flatten_wf:
  assumes "wf_props ps"
  shows "flatten_entries ps [] [] = map (keyed []) (paths_entries ps)"
proof -
  let ?E = "paths_entries ps"
  have inj: "inj_on (key_of []) (set (map fst ?E))"
  proof (rule inj_on_inverseI [where g = split_dot])
    fix segs assume "segs \<in> set (map fst ?E)"
    then obtain w where "(segs, w) \<in> set ?E" by auto
    then show "split_dot (key_of [] segs) = segs" using assms by (intro top_key(2))
  qed
  have "map fst (map (keyed []) ?E) = map (key_of []) (map fst ?E)"
    by (simp add: keyed_def comp_def)
  then have d: "distinct (map fst (map (keyed []) ?E))"
    using inj paths_distinct(1) [OF assms] by (simp only: distinct_map)
  have n: "\<forall>k \<in> fst ` set (map (keyed []) ?E). \<not> is_array_index k"
    using assms by (auto simp: keyed_def dest: top_key(3))
  have "fold put_entry (map (keyed []) ?E) [] = [] @ map (keyed []) ?E"
    using d n by (intro fold_put_fresh) simp_all
  then show ?thesis using flatten_paths(1) [OF assms, of "[]" "[]"] by simp
qed

lemma unflatten_keyed:
  assumes "\<forall>e \<in> set E. key_of [] (fst e) \<noteq> [] \<and> split_dot (key_of [] (fst e)) = fst e"
  shows "fold (\<lambda>(flatKey, value) root.
                  if flatKey = [] then root else setDeep (split_dot flatKey) value root)
           (map (keyed []) E) root =
         fold (setDeep_entry False) E root"
  using assms
  by (induction E arbitrary: root) (simp_all add: keyed_def setDeep_entry_def setDeep_def)

lemma roundtrip_props:
  assumes "wf_props ps"
  shows "unflatten (flatten_entries ps [] []) = Obj ps"
proof -
  have "unflatten (flatten_entries ps [] []) = fold (setDeep_entry False) (paths_entries ps) (Obj [])"
    unfolding unflatten_def flatten_wf [OF assms]
    using assms by (intro unflatten_keyed) (auto dest: top_key(1,2))
  also have "\<dots> = Obj ([] @ ps)"
    using assms by (intro build(1)) simp_all
  finally show ?thesis by simp
qed

subsection \<open>General steps\<close>

lemma setDeep_at_last: "setDeep_at hp cur [p] v = set_seg (conv hp cur p) p v"
  by (auto simp: set_seg_def conv_def)

lemma setDeep_at_step:
  assumes "segs \<noteq> []"
  shows "setDeep_at hp cur (p # segs) v =
         set_seg (conv hp cur p) p (setDeep_at True
           (if is_container (get_seg (conv hp cur p) p) then get_seg (conv hp cur p) p
            else fresh_for (hd segs)) segs v)"
proof -
  from assms obtain q rest where segs: "segs = q # rest" by (cases segs) auto
  show ?thesis
    unfolding segs
    by (auto simp: set_seg_def get_seg_def container_test fresh_for_def conv_def Let_def)
qed

declare setDeep_at.simps [simp del]

lemma is_container_conv [simp]: "is_container cur \<Longrightarrow> is_container (conv hp cur p)"
  by (simp add: conv_def)

lemma conv_again [simp]: "conv hp (set_seg (conv hp cur p) p v) p = set_seg (conv hp cur p) p v"
  by (auto simp: conv_def)

lemma is_container_fresh [simp]: "is_container (fresh_for q)"
  by (simp add: fresh_for_def)


lemma get_path_Undefined [simp]: "get_path (Prim Undefined) segs = Prim Undefined"
  by (induction segs) (simp_all add: get_seg_def)





subsection \<open>The root stays an object\<close>

lemma setDeep_root:
  "parts \<noteq> [] \<Longrightarrow>
   \<exists>ps'. setDeep parts v (Obj ps) = Obj ps' \<and>
         fst ` set ps' = insert (root_key (hd parts)) (fst ` set ps)"
proof (cases parts)
  case Nil
  assume "parts \<noteq> []"
  with Nil show ?thesis by simp
next
  case (Cons p rest)
  show ?thesis
  proof (cases rest)
    case Nil
    with Cons show ?thesis by (auto simp: setDeep_def root_key_def Let_def setDeep_at.simps)
  next
    case (Cons q rest')
    with \<open>parts = p # rest\<close> show ?thesis
      by (auto simp: setDeep_def root_key_def Let_def setDeep_at.simps)
  qed
qed

lemma unflatten_root_from:
  "\<exists>ps'. fold (\<lambda>(flatKey, value) root.
                  if flatKey = [] then root else setDeep (split_dot flatKey) value root)
            M (Obj ps) = Obj ps' \<and>
         fst ` set ps' =
           fst ` set ps \<union> (\<lambda>e. root_key (hd (split_dot (fst e)))) ` {e \<in> set M. fst e \<noteq> []}"
proof (induction M arbitrary: ps)
  case Nil
  show ?case by simp
next
  case (Cons e M)
  obtain k v where e: "e = (k, v)" by (cases e)
  show ?case
  proof (cases "k = []")
    case True
    then have "{x \<in> set (e # M). fst x \<noteq> []} = {x \<in> set M. fst x \<noteq> []}"
      using e by auto
    with Cons.IH [of ps] e True show ?thesis by simp
  next
    case False
    obtain ps1 where 1: "setDeep (split_dot k) v (Obj ps) = Obj ps1"
      and k1: "fst ` set ps1 = insert (root_key (hd (split_dot k))) (fst ` set ps)"
      using setDeep_root [of "split_dot k" v ps] by auto
    from Cons.IH [of ps1] obtain ps' where
      2: "fold (\<lambda>(flatKey, value) root.
                  if flatKey = [] then root else setDeep (split_dot flatKey) value root)
            M (Obj ps1) = Obj ps'"
      and k2: "fst ` set ps' =
           fst ` set ps1 \<union> (\<lambda>e. root_key (hd (split_dot (fst e)))) ` {e \<in> set M. fst e \<noteq> []}"
      by blast
    have "{x \<in> set (e # M). fst x \<noteq> []} = insert e {x \<in> set M. fst x \<noteq> []}"
      using e False by auto
    then have "fst ` set ps' =
           fst ` set ps \<union> (\<lambda>e. root_key (hd (split_dot (fst e)))) ` {x \<in> set (e # M). fst x \<noteq> []}"
      using k1 k2 e by simp
    with 1 2 False e show ?thesis by simp
  qed
qed

subsection \<open>The loop over the entries\<close>


lemma unflatten_skip: "unflatten (xs @ ([], v) # ys) = unflatten (xs @ ys)"
  by (simp add: unflatten_def)


subsection \<open>The outcome of setDeep\<close>

lemma and_then_Returns [simp]: "and_then r Returns = r"
  by (cases r) simp_all

lemma and_then_Returns_iff:
  "and_then r f = Returns y \<longleftrightarrow> (\<exists>x. r = Returns x \<and> f x = Returns y)"
  by (cases r) simp_all

lemma subscript_ordinary: "ordinary p \<Longrightarrow> subscript_outcome cur p l n = Returns ()"
  by (simp add: ordinary_def subscript_outcome_def)

lemma setDeep_outcome_last:
  "setDeep_outcome hp cur [p] v =
     and_then (subscript_outcome cur p True False) (\<lambda>u. Returns (set_seg (conv hp cur p) p v))"
  by (cases "subscript_outcome cur p True False") (auto simp: conv_def)

lemma setDeep_outcome_step:
  assumes "segs \<noteq> []"
  shows "setDeep_outcome hp cur (p # segs) v =
         and_then (subscript_outcome cur p False (isIndex (hd segs))) (\<lambda>u.
           and_then (setDeep_outcome True
                       (if is_container (get_seg (conv hp cur p) p) then get_seg (conv hp cur p) p
                        else fresh_for (hd segs)) segs v)
             (\<lambda>c. Returns (set_seg (conv hp cur p) p c)))"
proof -
  from assms obtain q rest where segs: "segs = q # rest" by (cases segs) auto
  let ?c = "conv hp cur p"
  let ?ch = "if is_container (get_seg ?c p) then get_seg ?c p else fresh_for q"
  have ch: "(if is_nullish (get_seg ?c p) \<or> \<not> typeof_object (get_seg ?c p)
             then (if isIndex q then Arr [] [] else Obj []) else get_seg ?c p) = ?ch"
    by (simp add: container_test fresh_for_def)
  have c: "(if isIndex p \<and> \<not> isArray cur \<and> hp then Arr [] [] else cur) = ?c"
    by (simp add: conv_def)
  show ?thesis
  proof (cases "subscript_outcome cur p False (isIndex q)")
    case (Returns u)
    show ?thesis
      unfolding segs
      by (cases "setDeep_outcome True ?ch (q # rest) v")
         (simp_all only: setDeep_outcome.simps Returns outcome.case Let_def c ch and_then.simps
            list.sel)
  qed (simp_all add: segs)
qed

declare setDeep_outcome.simps [simp del]

text \<open>Where \<open>setDeep\<close> returns, it returns what \<open>setDeep_at\<close> computes.\<close>

lemma setDeep_outcome_Returns:
  "setDeep_outcome hp cur segs v = Returns R \<Longrightarrow> R = setDeep_at hp cur segs v"
proof (induction segs arbitrary: hp cur R)
  case Nil
  then show ?case by (simp add: setDeep_outcome.simps setDeep_at.simps)
next
  case (Cons p rest)
  show ?case
  proof (cases rest)
    case Nil
    with Cons.prems show ?thesis
      by (auto simp: setDeep_outcome_last setDeep_at_last and_then_Returns_iff)
  next
    case (Cons q rest')
    then have ne: "rest \<noteq> []" by simp
    let ?ch = "if is_container (get_seg (conv hp cur p) p) then get_seg (conv hp cur p) p
               else fresh_for (hd rest)"
    from Cons.prems obtain c where c: "setDeep_outcome True ?ch rest v = Returns c"
      and R: "R = set_seg (conv hp cur p) p c"
      by (auto simp: setDeep_outcome_step [OF ne] and_then_Returns_iff)
    from c have "c = setDeep_at True ?ch rest v" by (rule Cons.IH)
    with R show ?thesis by (simp only: setDeep_at_step [OF ne])
  qed
qed

text \<open>On ordinary segments \<open>setDeep\<close> returns.\<close>

lemma setDeep_outcome_ordinary:
  "list_all ordinary segs \<Longrightarrow>
   setDeep_outcome hp cur segs v = Returns (setDeep_at hp cur segs v)"
proof (induction segs arbitrary: hp cur)
  case Nil
  show ?case by (simp add: setDeep_outcome.simps setDeep_at.simps)
next
  case (Cons p rest)
  from Cons.prems have p: "ordinary p" and r: "list_all ordinary rest" by simp_all
  show ?case
  proof (cases rest)
    case Nil
    with p show ?thesis
      by (simp add: setDeep_outcome_last setDeep_at_last subscript_ordinary)
  next
    case (Cons q rest')
    then have ne: "rest \<noteq> []" by simp
    show ?thesis
      by (simp only: setDeep_outcome_step [OF ne] setDeep_at_step [OF ne]
            subscript_ordinary [OF p] Cons.IH [OF r] and_then.simps)
  qed
qed

text \<open>The one exception of \<open>setDeep\<close> is \<open>RangeError\<close>.\<close>

lemma and_then_Throws_iff:
  "and_then r f = Throws e \<longleftrightarrow> r = Throws e \<or> (\<exists>x. r = Returns x \<and> f x = Throws e)"
  by (cases r) simp_all

lemma subscript_Throws: "subscript_outcome cur p l n = Throws e \<Longrightarrow> e = RangeError"
  by (simp add: subscript_outcome_def split: if_splits)

lemma setDeep_outcome_Throws: "setDeep_outcome hp cur segs v = Throws e \<Longrightarrow> e = RangeError"
proof (induction segs arbitrary: hp cur)
  case Nil
  then show ?case by (simp add: setDeep_outcome.simps)
next
  case (Cons p rest)
  show ?case
  proof (cases rest)
    case Nil
    with Cons.prems show ?thesis
      by (auto simp: setDeep_outcome_last and_then_Throws_iff dest: subscript_Throws)
  next
    case (Cons q rest')
    then have ne: "rest \<noteq> []" by simp
    from Cons.prems show ?thesis
      by (auto simp: setDeep_outcome_step [OF ne] and_then_Throws_iff
            dest: subscript_Throws Cons.IH)
  qed
qed

subsection \<open>The outcome of unflatten\<close>

lemma fold_outcome_Throws:
  "fold (\<lambda>(k, v) r. and_then r (f k v)) M (Throws e) = Throws e"
  by (induction M) auto

lemma fold_outcome_Unmodelled:
  "fold (\<lambda>(k, v) r. and_then r (f k v)) M Unmodelled = Unmodelled"
  by (induction M) auto

lemma unflatten_outcome_from:
  "fold (\<lambda>(flatKey, value) r.
           and_then r (\<lambda>root.
             if flatKey = [] then Returns root
             else setDeep_outcome False root (split_dot flatKey) value)) M (Returns R0) = Returns R
   \<Longrightarrow> R = fold (\<lambda>(flatKey, value) root.
                   if flatKey = [] then root else setDeep (split_dot flatKey) value root) M R0"
proof (induction M arbitrary: R0)
  case Nil
  then show ?case by simp
next
  case (Cons e M)
  obtain k v where e: "e = (k, v)" by (cases e)
  show ?case
  proof (cases "k = []")
    case True
    with Cons.prems e Cons.IH [of R0] show ?thesis by simp
  next
    case False
    show ?thesis
    proof (cases "setDeep_outcome False R0 (split_dot k) v")
      case (Returns R1)
      then have R1: "R1 = setDeep (split_dot k) v R0"
        unfolding setDeep_def by (rule setDeep_outcome_Returns)
      from Cons.prems e False Returns Cons.IH [of R1] show ?thesis by (simp add: R1)
    next
      case (Throws x)
      with Cons.prems e False show ?thesis
        using fold_outcome_Throws
          [of "\<lambda>k v root. if k = [] then Returns root
                           else setDeep_outcome False root (split_dot k) v" M x]
        by simp
    next
      case Unmodelled
      with Cons.prems e False show ?thesis
        using fold_outcome_Unmodelled
          [of "\<lambda>k v root. if k = [] then Returns root
                           else setDeep_outcome False root (split_dot k) v" M]
        by simp
    qed
  qed
qed

lemma unflatten_outcome_Returns: "unflatten_outcome M = Returns R \<Longrightarrow> R = unflatten M"
  unfolding unflatten_outcome_def unflatten_def by (rule unflatten_outcome_from)

lemma unflatten_outcome_plain_from:
  "plain_flat M \<Longrightarrow>
   fold (\<lambda>(flatKey, value) r.
           and_then r (\<lambda>root.
             if flatKey = [] then Returns root
             else setDeep_outcome False root (split_dot flatKey) value)) M (Returns R0) =
   Returns (fold (\<lambda>(flatKey, value) root.
                    if flatKey = [] then root else setDeep (split_dot flatKey) value root) M R0)"
proof (induction M arbitrary: R0)
  case Nil
  show ?case by simp
next
  case (Cons e M)
  obtain k v where e: "e = (k, v)" by (cases e)
  from Cons.prems e have k: "list_all ordinary (split_dot k)" and M: "plain_flat M"
    by (simp_all add: plain_flat_def plain_key_def)
  show ?case
    using Cons.IH [OF M] setDeep_outcome_ordinary [OF k, of False]
    by (simp add: e setDeep_def)
qed

lemma unflatten_outcome_plain: "plain_flat M \<Longrightarrow> unflatten_outcome M = Returns (unflatten M)"
  unfolding unflatten_outcome_def unflatten_def by (rule unflatten_outcome_plain_from)

lemma unflatten_outcome_Throws_from:
  assumes "\<And>e. r = Throws e \<Longrightarrow> e = RangeError"
    and "fold (\<lambda>(flatKey, value) r.
           and_then r (\<lambda>root.
             if flatKey = [] then Returns root
             else setDeep_outcome False root (split_dot flatKey) value)) M r = Throws e"
  shows "e = RangeError"
  using assms
proof (induction M arbitrary: r)
  case Nil
  then show ?case by simp
next
  case (Cons x M)
  obtain k v where x: "x = (k, v)" by (cases x)
  let ?r1 = "and_then r (\<lambda>root. if k = [] then Returns root
                                  else setDeep_outcome False root (split_dot k) v)"
  have "\<And>e. ?r1 = Throws e \<Longrightarrow> e = RangeError"
    using Cons.prems(1)
    by (auto simp: and_then_Throws_iff dest: setDeep_outcome_Throws split: if_splits)
  moreover from Cons.prems(2) x
  have "fold (\<lambda>(flatKey, value) r.
           and_then r (\<lambda>root.
             if flatKey = [] then Returns root
             else setDeep_outcome False root (split_dot flatKey) value)) M ?r1 = Throws e"
    by simp
  ultimately show ?case by (rule Cons.IH)
qed

lemma unflatten_outcome_Throws: "unflatten_outcome M = Throws e \<Longrightarrow> e = RangeError"
  unfolding unflatten_outcome_def by (rule unflatten_outcome_Throws_from [of "Returns (Obj [])"]) simp_all

lemma unflatten_outcome_skip:
  "unflatten_outcome (xs @ ([], v) # ys) = unflatten_outcome (xs @ ys)"
  by (simp add: unflatten_outcome_def)

lemma plain_flat_append [simp]: "plain_flat (xs @ ys) \<longleftrightarrow> plain_flat xs \<and> plain_flat ys"
  by (simp add: plain_flat_def)

lemma plain_flat_Cons [simp]: "plain_flat (e # M) \<longleftrightarrow> plain_key (fst e) \<and> plain_flat M"
  by (simp add: plain_flat_def)

lemma plain_flat_Nil [simp]: "plain_flat []"
  by (simp add: plain_flat_def)


subsection \<open>Rows with a blank key\<close>

lemma flatMap_row_blank: "trim k = [] \<Longrightarrow> flatMap_row k w = Returns"
  by (rule ext) (simp add: flatMap_row_def)

lemma build_flatMap_blank:
  "trim k = [] \<Longrightarrow> build_flatMap (rs @ (k, w) # rs') = build_flatMap (rs @ rs')"
  by (simp add: build_flatMap_def flatMap_row_blank)

lemma build_flatMap_single_blank: "trim k = [] \<Longrightarrow> build_flatMap [(k, w)] = Returns []"
  by (simp add: build_flatMap_def flatMap_row_blank)

lemma processWorkbookToJSON_blank:
  assumes "trim k = []"
  shows "processWorkbookToJSON (rs @ (k, w) # rs') = processWorkbookToJSON (rs @ rs')"
proof (cases "rs @ rs' = []")
  case True
  then have "rs = []" "rs' = []" by simp_all
  then show ?thesis
    using assms
    by (simp add: processWorkbookToJSON_def build_flatMap_single_blank unflatten_outcome_def)
next
  case False
  have ne: "rs @ (k, w) # rs' \<noteq> []" by simp
  show ?thesis
    unfolding processWorkbookToJSON_def using False ne
    by (simp only: if_False build_flatMap_blank [OF assms])
qed

subsection \<open>The outcome of the entries below one segment\<close>

lemma setDeep_entry_outcome_simps [simp]:
  "setDeep_entry_outcome hp e (Returns cur) = setDeep_outcome hp cur (fst e) (snd e)"
  "setDeep_entry_outcome hp e (Throws x) = Throws x"
  "setDeep_entry_outcome hp e Unmodelled = Unmodelled"
  by (simp_all add: setDeep_entry_outcome_def)

lemma fold_entry_outcome_start:
  "fold (setDeep_entry_outcome hp) E r = Returns c' \<Longrightarrow> \<exists>c. r = Returns c"
proof (induction E arbitrary: r)
  case Nil
  then show ?case by simp
next
  case (Cons e E)
  then have "\<exists>c. setDeep_entry_outcome hp e r = Returns c" by simp
  then show ?case by (cases r) simp_all
qed

lemma subscript_outcome_kind:
  "isArray c = isArray cur \<Longrightarrow> subscript_outcome c p l n = subscript_outcome cur p l n"
  by (simp add: subscript_outcome_def)

lemma setDeep_outcome_Cons:
  assumes "segs \<noteq> []" and "isIndex p \<longrightarrow> \<not> hp \<or> isArray cur"
    and "subscript_outcome cur p False (isIndex (hd segs)) = Returns ()"
    and "setDeep_outcome True
           (if is_container (get_seg cur p) then get_seg cur p else fresh_for (hd segs)) segs v =
         Returns c"
  shows "setDeep_outcome hp cur (p # segs) v = Returns (set_seg cur p c)"
proof -
  from assms(2) have c: "conv hp cur p = cur" by (auto simp: conv_def)
  show ?thesis
    by (simp only: setDeep_outcome_step [OF assms(1)] c assms(3,4) and_then.simps)
qed

lemma fold_descend_outcome:
  assumes "is_container (get_seg cur p)" and "is_container cur"
    and "isIndex p \<longrightarrow> \<not> hp \<or> isArray cur"
    and "\<forall>e \<in> set E. fst e \<noteq> []"
    and "\<And>l n. subscript_outcome cur p l n = Returns ()"
    and "fold (setDeep_entry_outcome True) E (Returns (get_seg cur p)) = Returns c'"
  shows "fold (setDeep_entry_outcome hp) (map (\<lambda>(segs, w). (p # segs, w)) E) (Returns cur) =
         Returns (set_seg cur p c')"
  using assms
proof (induction E arbitrary: cur)
  case Nil
  from Nil.prems(6) have c': "c' = get_seg cur p" by simp
  from Nil.prems(1) show ?case unfolding c' by (simp add: set_get_seg)
next
  case (Cons e E)
  obtain segs w where e: "e = (segs, w)" by (cases e)
  from Cons.prems(4) e have segs: "segs \<noteq> []" by simp
  from Cons.prems(6) e
  have inner: "fold (setDeep_entry_outcome True) E (setDeep_outcome True (get_seg cur p) segs w) =
               Returns c'"
    by simp
  then obtain c1 where c1: "setDeep_outcome True (get_seg cur p) segs w = Returns c1"
    using fold_entry_outcome_start by blast
  then have pure: "c1 = setDeep_at True (get_seg cur p) segs w" by (rule setDeep_outcome_Returns)
  let ?cur1 = "set_seg cur p c1"
  have step: "setDeep_outcome hp cur (p # segs) w = Returns ?cur1"
    using segs Cons.prems(3) Cons.prems(5) c1 Cons.prems(1)
    by (intro setDeep_outcome_Cons) simp_all
  have cont1: "is_container c1"
    unfolding pure using Cons.prems(1) by (rule is_container_setDeep_at)
  have get1: "get_seg ?cur1 p = c1" using Cons.prems(2) by simp
  have sub1: "\<And>l n. subscript_outcome ?cur1 p l n = Returns ()"
    using Cons.prems(5) by (simp add: subscript_outcome_kind [of ?cur1 cur])
  have "fold (setDeep_entry_outcome hp) (map (\<lambda>(segs, w). (p # segs, w)) E) (Returns ?cur1) =
        Returns (set_seg ?cur1 p c')"
  proof (rule Cons.IH)
    show "is_container (get_seg ?cur1 p)" using cont1 get1 by simp
    show "is_container ?cur1" using Cons.prems(2) by simp
    show "isIndex p \<longrightarrow> \<not> hp \<or> isArray ?cur1" using Cons.prems(3) by simp
    show "\<forall>e \<in> set E. fst e \<noteq> []" using Cons.prems(4) by simp
    show "\<And>l n. subscript_outcome ?cur1 p l n = Returns ()" by (rule sub1)
    show "fold (setDeep_entry_outcome True) E (Returns (get_seg ?cur1 p)) = Returns c'"
      using inner c1 get1 by simp
  qed
  then show ?case by (simp add: e step)
qed

lemma fold_descend_new_outcome:
  assumes "\<not> is_container (get_seg cur p)" and "is_container cur"
    and "isIndex p \<longrightarrow> \<not> hp \<or> isArray cur"
    and "\<forall>e \<in> set E. fst e \<noteq> []" and "E \<noteq> []"
    and "\<And>l n. subscript_outcome cur p l n = Returns ()"
    and "fold (setDeep_entry_outcome True) E (Returns (fresh_for (hd (fst (hd E))))) = Returns c'"
  shows "fold (setDeep_entry_outcome hp) (map (\<lambda>(segs, w). (p # segs, w)) E) (Returns cur) =
         Returns (set_seg cur p c')"
proof -
  from assms(5) obtain e E' where E: "E = e # E'" by (cases E) auto
  obtain segs w where e: "e = (segs, w)" by (cases e)
  from assms(4) E e have segs: "segs \<noteq> []" by simp
  from assms(7) E e
  have inner: "fold (setDeep_entry_outcome True) E'
                 (setDeep_outcome True (fresh_for (hd segs)) segs w) = Returns c'"
    by simp
  then obtain c1 where c1: "setDeep_outcome True (fresh_for (hd segs)) segs w = Returns c1"
    using fold_entry_outcome_start by blast
  then have pure: "c1 = setDeep_at True (fresh_for (hd segs)) segs w"
    by (rule setDeep_outcome_Returns)
  let ?cur1 = "set_seg cur p c1"
  have step: "setDeep_outcome hp cur (p # segs) w = Returns ?cur1"
    using segs assms(3) assms(6) c1 assms(1)
    by (intro setDeep_outcome_Cons) simp_all
  have cont1: "is_container c1"
    unfolding pure by (rule is_container_setDeep_at) (simp add: fresh_for_def)
  have get1: "get_seg ?cur1 p = c1" using assms(2) by simp
  have sub1: "\<And>l n. subscript_outcome ?cur1 p l n = Returns ()"
    using assms(6) by (simp add: subscript_outcome_kind [of ?cur1 cur])
  have "fold (setDeep_entry_outcome hp) (map (\<lambda>(segs, w). (p # segs, w)) E') (Returns ?cur1) =
        Returns (set_seg ?cur1 p c')"
  proof (rule fold_descend_outcome)
    show "is_container (get_seg ?cur1 p)" using cont1 get1 by simp
    show "is_container ?cur1" using assms(2) by simp
    show "isIndex p \<longrightarrow> \<not> hp \<or> isArray ?cur1" using assms(3) by simp
    show "\<forall>e \<in> set E'. fst e \<noteq> []" using assms(4) E by simp
    show "\<And>l n. subscript_outcome ?cur1 p l n = Returns ()" by (rule sub1)
    show "fold (setDeep_entry_outcome True) E' (Returns (get_seg ?cur1 p)) = Returns c'"
      using inner c1 get1 by simp
  qed
  then show ?thesis by (simp add: E e step)
qed

subsection \<open>Rebuilding a well-formed tree raises nothing\<close>

lemma subscript_name:
  "name_ok k \<Longrightarrow> subscript_outcome (Obj acc) k l n = Returns ()"
  by (simp add: subscript_outcome_def name_ok_def)

lemma subscript_index:
  assumes "i < 4294967295"
  shows "subscript_outcome cur (ToString i) l n = Returns ()"
proof -
  have "\<not> isIndex ''__proto__''" by (simp add: isIndex_def is_digit_def)
  then have "ToString i \<noteq> ''__proto__''" using isIndex_ToString [of i] by metis
  with assms show ?thesis by (simp add: subscript_outcome_def)
qed

lemma setDeep_outcome_single:
  assumes "isIndex p \<longrightarrow> \<not> hp \<or> isArray cur"
    and "subscript_outcome cur p True False = Returns ()"
  shows "setDeep_outcome hp cur [p] v = Returns (set_seg cur p v)"
proof -
  from assms(1) have c: "conv hp cur p = cur" by (auto simp: conv_def)
  show ?thesis by (simp only: setDeep_outcome_last c assms(2) and_then.simps)
qed

lemma build_outcome:
  "wf_props ps \<Longrightarrow> fst ` set acc \<inter> fst ` set ps = {} \<Longrightarrow>
     fold (setDeep_entry_outcome hp) (paths_entries ps) (Returns (Obj acc)) =
       Returns (Obj (acc @ ps))"
  "wf_elems es \<Longrightarrow> length acc' = i \<Longrightarrow> i + length es \<le> 4294967295 \<Longrightarrow>
     fold (setDeep_entry_outcome hp') (paths_forEach es i) (Returns (Arr acc' [])) =
       Returns (Arr (acc' @ es) [])"
proof (induction ps and es i arbitrary: acc hp and acc' hp'
       rule: paths_entries_paths_forEach.induct)
  case 1
  then show ?case by simp
next
  case (2 k v rest)
  from "2.prems" have k: "name_ok k" "k \<notin> fst ` set rest" "k \<notin> fst ` set acc"
    and v: "wf_value v" and rest: "wf_props rest"
    and disj: "fst ` set (acc @ [(k, v)]) \<inter> fst ` set rest = {}"
    by auto
  from k have nk: "\<not> isIndex k" by (simp add: name_ok_def)
  have sub: "\<And>l n. subscript_outcome (Obj acc) k l n = Returns ()"
    using k(1) by (rule subscript_name)
  have first: "fold (setDeep_entry_outcome hp)
                 (case v of
                    Obj qs \<Rightarrow> map (\<lambda>(segs, w). (k # segs, w)) (paths_entries qs)
                  | Arr es ps \<Rightarrow> map (\<lambda>(segs, w). (k # segs, w)) (paths_forEach es 0)
                  | Prim s \<Rightarrow> [([k], Prim (coalesce_empty s))]) (Returns (Obj acc)) =
               Returns (Obj (acc @ [(k, v)]))"
  proof (cases v)
    case (Prim s)
    have "setDeep_outcome hp (Obj acc) [k] (Prim s) = Returns (set_seg (Obj acc) k (Prim s))"
      using nk sub by (intro setDeep_outcome_single) simp_all
    with Prim v k show ?thesis
      by (simp add: wf_prim_coalesce set_seg_new_name)
  next
    case (Obj qs)
    with v have qs: "qs \<noteq> []" "wf_props qs" by auto
    have f: "fresh_for (hd (fst (hd (paths_entries qs)))) = Obj []"
      using paths_first(1) [OF qs(2) qs(1)] by simp
    have inner: "fold (setDeep_entry_outcome True) (paths_entries qs) (Returns (Obj [])) =
                 Returns (Obj ([] @ qs))"
      using qs(2) by (intro "2.IH"(1) [OF Obj]) simp_all
    have "fold (setDeep_entry_outcome hp)
            (map (\<lambda>(segs, w). (k # segs, w)) (paths_entries qs)) (Returns (Obj acc)) =
          Returns (set_seg (Obj acc) k (Obj qs))"
      using k paths_first(1) [OF qs(2) qs(1)] paths_segs_nonempty(1) [of qs] sub inner
      by (intro fold_descend_new_outcome) (simp_all add: get_seg_absent_name nk f)
    then show ?thesis using Obj k by (simp add: set_seg_new_name)
  next
    case (Arr es ps)
    with v have es: "es \<noteq> []" "wf_elems es" "ps = []" "length es \<le> 4294967295" by auto
    have f: "fresh_for (hd (fst (hd (paths_forEach es 0)))) = Arr [] []"
      using paths_first(2) [OF es(2) es(1), of 0] by simp
    have inner: "fold (setDeep_entry_outcome True) (paths_forEach es 0) (Returns (Arr [] [])) =
                 Returns (Arr ([] @ es) [])"
      using es by (intro "2.IH"(2) [OF Arr]) simp_all
    have "fold (setDeep_entry_outcome hp)
            (map (\<lambda>(segs, w). (k # segs, w)) (paths_forEach es 0)) (Returns (Obj acc)) =
          Returns (set_seg (Obj acc) k (Arr es []))"
      using k paths_first(2) [OF es(2) es(1), of 0] paths_segs_nonempty(2) [of es 0] sub inner
      by (intro fold_descend_new_outcome) (simp_all add: get_seg_absent_name nk f)
    then show ?thesis using Arr k es by (simp add: set_seg_new_name)
  qed
  have "fold (setDeep_entry_outcome hp) (paths_entries rest) (Returns (Obj (acc @ [(k, v)]))) =
        Returns (Obj ((acc @ [(k, v)]) @ rest))"
    using rest disj by (rule "2.IH"(3))
  with first show ?case by simp
next
  case (3 i)
  then show ?case by simp
next
  case (4 e es i)
  from "4.prems" obtain v where e: "e = Some v" and v: "wf_value v" and es: "wf_elems es"
    by (auto split: option.splits)
  from "4.prems" have i: "length acc' = i" "i < 4294967295" "Suc i + length es \<le> 4294967295"
    by auto
  have sub: "\<And>l n. subscript_outcome (Arr acc' []) (ToString i) l n = Returns ()"
    using i(2) by (rule subscript_index)
  have first: "fold (setDeep_entry_outcome hp')
                 (case e of
                    None \<Rightarrow> []
                  | Some (Obj qs) \<Rightarrow> map (\<lambda>(segs, w). (ToString i # segs, w)) (paths_entries qs)
                  | Some (Arr a b) \<Rightarrow> [([ToString i], Arr a b)]
                  | Some (Prim s) \<Rightarrow> [([ToString i], Prim (coalesce_empty s))])
                 (Returns (Arr acc' [])) =
               Returns (Arr (acc' @ [e]) [])"
  proof (cases v)
    case (Prim s)
    have "setDeep_outcome hp' (Arr acc' []) [ToString i] (Prim s) =
          Returns (set_seg (Arr acc' []) (ToString i) (Prim s))"
      using sub by (intro setDeep_outcome_single) simp_all
    with Prim v e i show ?thesis
      by (simp add: wf_prim_coalesce set_seg_next_index)
  next
    case (Arr a b)
    have "setDeep_outcome hp' (Arr acc' []) [ToString i] (Arr a b) =
          Returns (set_seg (Arr acc' []) (ToString i) (Arr a b))"
      using sub by (intro setDeep_outcome_single) simp_all
    with Arr v e i show ?thesis
      by (simp add: set_seg_next_index)
  next
    case (Obj qs)
    with v have qs: "qs \<noteq> []" "wf_props qs" by auto
    have f: "fresh_for (hd (fst (hd (paths_entries qs)))) = Obj []"
      using paths_first(1) [OF qs(2) qs(1)] by simp
    have inner: "fold (setDeep_entry_outcome True) (paths_entries qs) (Returns (Obj [])) =
                 Returns (Obj ([] @ qs))"
      using qs(2) e by (intro "4.IH"(1) [OF _ Obj]) simp_all
    have "fold (setDeep_entry_outcome hp')
            (map (\<lambda>(segs, w). (ToString i # segs, w)) (paths_entries qs)) (Returns (Arr acc' [])) =
          Returns (set_seg (Arr acc' []) (ToString i) (Obj qs))"
      using i paths_first(1) [OF qs(2) qs(1)] paths_segs_nonempty(1) [of qs] sub inner
      by (intro fold_descend_new_outcome) (simp_all add: get_seg_absent_index f)
    then show ?thesis using Obj e i by (simp add: set_seg_next_index)
  qed
  have "fold (setDeep_entry_outcome hp') (paths_forEach es (Suc i))
          (Returns (Arr (acc' @ [e]) [])) =
        Returns (Arr ((acc' @ [e]) @ es) [])"
    using es i by (intro "4.IH"(2)) simp_all
  with first show ?case by simp
qed

lemma unflatten_outcome_keyed:
  assumes "\<forall>e \<in> set E. key_of [] (fst e) \<noteq> [] \<and> split_dot (key_of [] (fst e)) = fst e"
  shows "fold (\<lambda>(flatKey, value) r.
                  and_then r (\<lambda>root.
                    if flatKey = [] then Returns root
                    else setDeep_outcome False root (split_dot flatKey) value))
           (map (keyed []) E) r =
         fold (setDeep_entry_outcome False) E r"
  using assms
  by (induction E arbitrary: r) (simp_all add: keyed_def setDeep_entry_outcome_def)

lemma roundtrip_outcome:
  assumes "wf_props ps"
  shows "unflatten_outcome (flatten_entries ps [] []) = Returns (Obj ps)"
proof -
  have "unflatten_outcome (flatten_entries ps [] []) =
        fold (setDeep_entry_outcome False) (paths_entries ps) (Returns (Obj []))"
    unfolding unflatten_outcome_def flatten_wf [OF assms]
    using assms by (intro unflatten_outcome_keyed) (auto dest: top_key(1,2))
  also have "\<dots> = Returns (Obj ([] @ ps))"
    using assms by (intro build_outcome(1)) simp_all
  finally show ?thesis by simp
qed

subsection \<open>The keys of the flat map built from the rows\<close>

lemma dropWhile_rev_dropWhile:
  assumes "dropWhile P (rev (dropWhile P xs)) \<noteq> []"
  shows "\<not> P (last (dropWhile P (rev (dropWhile P xs))))"
proof -
  let ?d = "dropWhile P xs"
  let ?e = "dropWhile P (rev ?d)"
  have d: "?d \<noteq> []"
  proof
    assume a: "?d = []"
    have "?e = []" unfolding a by simp
    with assms show False by contradiction
  qed
  then have hd: "\<not> P (hd ?d)" by (rule hd_dropWhile)
  have "rev ?d = takeWhile P (rev ?d) @ ?e" by simp
  then have "last (rev ?d) = last ?e" using assms by (metis last_appendR)
  then have "last ?e = hd ?d" by (simp add: last_rev)
  with hd show ?thesis by simp
qed

lemma trim_ends:
  assumes "trim s \<noteq> []"
  shows "\<not> is_space (hd (trim s))" and "\<not> is_space (last (trim s))"
proof -
  let ?e = "dropWhile is_space (rev (dropWhile is_space s))"
  from assms have e: "?e \<noteq> []" by (simp add: trim_def)
  from e have "\<not> is_space (last ?e)" by (rule dropWhile_rev_dropWhile)
  then show "\<not> is_space (hd (trim s))" by (simp add: trim_def hd_rev)
  from e have "\<not> is_space (hd ?e)" by (rule hd_dropWhile)
  then show "\<not> is_space (last (trim s))" by (simp add: trim_def last_rev)
qed

lemma trim_trim: "trim (trim s) = trim s"
proof (cases "trim s = []")
  case True
  show ?thesis unfolding True by (simp add: trim_def)
next
  case False
  let ?t = "trim s"
  from trim_ends [OF False] have h: "\<not> is_space (hd ?t)" and l: "\<not> is_space (last ?t)"
    by simp_all
  from h have 1: "dropWhile is_space ?t = ?t" by (simp only: dropWhile_eq_self_iff simp_thms)
  from l have "\<not> is_space (hd (rev ?t))" by (simp add: hd_rev)
  then have 2: "dropWhile is_space (rev ?t) = rev ?t"
    by (simp only: dropWhile_eq_self_iff simp_thms)
  have "trim ?t = rev (dropWhile is_space (rev (dropWhile is_space ?t)))" by (simp only: trim_def)
  also have "\<dots> = ?t" by (simp only: 1 2 rev_rev_ident)
  finally show ?thesis .
qed

lemma flatMap_row_keys:
  assumes "flatMap_row c v fm0 = Returns fm1"
    and "\<forall>k \<in> fst ` set fm0. k \<noteq> [] \<and> trim k = k"
  shows "\<forall>k \<in> fst ` set fm1. k \<noteq> [] \<and> trim k = k"
proof (cases "trim c = []")
  case True
  then have "flatMap_row c v fm0 = Returns fm0" by (simp add: flatMap_row_def)
  with assms(1) have "fm1 = fm0" by simp
  with assms(2) show ?thesis by (simp only:)
next
  case False
  have fm1: "fm1 = obj_put (trim c) v fm0"
  proof (cases "trim c = ''__proto__''")
    case True
    with False have "flatMap_row c v fm0 = Unmodelled" by (simp add: flatMap_row_def)
    with assms(1) show ?thesis by simp
  next
    case np: False
    with False have "flatMap_row c v fm0 = Returns (obj_put (trim c) v fm0)"
      by (simp add: flatMap_row_def)
    with assms(1) show ?thesis by simp
  qed
  have keys: "fst ` set fm1 = insert (trim c) (fst ` set fm0)"
    unfolding fm1 by (rule keyset_obj_put)
  show ?thesis
  proof
    fix k assume "k \<in> fst ` set fm1"
    then have "k = trim c \<or> k \<in> fst ` set fm0" unfolding keys by (rule insertE) simp_all
    then show "k \<noteq> [] \<and> trim k = k"
    proof
      assume k: "k = trim c"
      show ?thesis unfolding k using False by (simp only: trim_trim simp_thms)
    next
      assume "k \<in> fst ` set fm0"
      with assms(2) show ?thesis by (rule bspec)
    qed
  qed
qed

lemma build_flatMap_keys_from:
  assumes "fold (\<lambda>(keyCell, value) r. and_then r (flatMap_row keyCell value)) rows (Returns fm0) =
           Returns fm"
    and "\<forall>k \<in> fst ` set fm0. k \<noteq> [] \<and> trim k = k"
  shows "\<forall>k \<in> fst ` set fm. k \<noteq> [] \<and> trim k = k"
  using assms
proof (induction rows arbitrary: fm0)
  case Nil
  then show ?case by simp
next
  case (Cons row rows)
  obtain c v where row: "row = (c, v)" by (cases row)
  let ?f = "\<lambda>(keyCell, value) r. and_then r (flatMap_row keyCell value)"
  from Cons.prems(1) have run: "fold ?f rows (flatMap_row c v fm0) = Returns fm"
    by (simp add: row)
  show ?case
  proof (cases "flatMap_row c v fm0")
    case (Returns fm1)
    with run have "fold ?f rows (Returns fm1) = Returns fm" by simp
    moreover have "\<forall>k \<in> fst ` set fm1. k \<noteq> [] \<and> trim k = k"
      using Returns Cons.prems(2) by (rule flatMap_row_keys)
    ultimately show ?thesis by (rule Cons.IH)
  next
    case (Throws e)
    with run fold_outcome_Throws [of flatMap_row rows e] show ?thesis by simp
  next
    case Unmodelled
    with run fold_outcome_Unmodelled [of flatMap_row rows] show ?thesis by simp
  qed
qed

text \<open>No key of the flat map is empty or has white space at an end.\<close>

lemma build_flatMap_keys:
  assumes "build_flatMap rows = Returns flatMap" and "k \<in> fst ` set flatMap"
  shows "k \<noteq> [] \<and> trim k = k"
proof -
  have e: "\<forall>k \<in> fst ` set ([] :: props). k \<noteq> [] \<and> trim k = k" by simp
  from assms(1)
  have "fold (\<lambda>(keyCell, value) r. and_then r (flatMap_row keyCell value)) rows (Returns []) =
        Returns flatMap"
    by (simp only: build_flatMap_def)
  then have "\<forall>k \<in> fst ` set flatMap. k \<noteq> [] \<and> trim k = k"
    using e by (rule build_flatMap_keys_from)
  with assms(2) show ?thesis by (rule bspec [rotated])
qed

lemma leaves_simps [simp]:
  "leaves (Prim s) = {([], Prim (coalesce_empty s))}"
  "leaves (Obj ps) = set (paths_entries ps)"
  "leaves (Arr es ps) = set (paths_forEach es 0)"
  by (simp_all add: leaves_def)

lemma mem_paths_entries:
  "(segs, w) \<in> set (paths_entries ps) \<longleftrightarrow>
     (\<exists>k v r. (k, v) \<in> set ps \<and> segs = k # r \<and> (r, w) \<in> leaves v)"
proof (induction ps)
  case Nil
  show ?case by simp
next
  case (Cons e ps)
  obtain k v where e: "e = (k, v)" by (cases e)
  have "(segs, w) \<in> set (case v of
            Obj qs \<Rightarrow> map (\<lambda>(segs, w). (k # segs, w)) (paths_entries qs)
          | Arr es ps \<Rightarrow> map (\<lambda>(segs, w). (k # segs, w)) (paths_forEach es 0)
          | Prim s \<Rightarrow> [([k], Prim (coalesce_empty s))]) \<longleftrightarrow>
        (\<exists>r. segs = k # r \<and> (r, w) \<in> leaves v)"
    by (cases v) auto
  with Cons e show ?case by auto
qed

lemma mem_paths_forEach:
  assumes "\<forall>v. Some v \<in> set es \<longrightarrow> \<not> isArray v"
  shows "(segs, w) \<in> set (paths_forEach es i) \<longleftrightarrow>
     (\<exists>j v r. j < length es \<and> es ! j = Some v \<and> segs = ToString (i + j) # r \<and> (r, w) \<in> leaves v)"
  using assms
proof (induction es arbitrary: i)
  case Nil
  show ?case by simp
next
  case (Cons e es)
  have first: "(segs, w) \<in> set (case e of
            None \<Rightarrow> []
          | Some (Obj qs) \<Rightarrow> map (\<lambda>(segs, w). (ToString i # segs, w)) (paths_entries qs)
          | Some (Arr a b) \<Rightarrow> [([ToString i], Arr a b)]
          | Some (Prim s) \<Rightarrow> [([ToString i], Prim (coalesce_empty s))]) \<longleftrightarrow>
        (\<exists>v r. e = Some v \<and> segs = ToString i # r \<and> (r, w) \<in> leaves v)"
  proof (cases e)
    case None
    then show ?thesis by simp
  next
    case (Some v)
    with Cons.prems have "\<not> isArray v" by simp
    with Some show ?thesis by (cases v) auto
  qed
  have rest: "(segs, w) \<in> set (paths_forEach es (Suc i)) \<longleftrightarrow>
     (\<exists>j v r. j < length es \<and> es ! j = Some v \<and> segs = ToString (Suc i + j) # r \<and> (r, w) \<in> leaves v)"
    using Cons.prems by (intro Cons.IH) simp
  have "(\<exists>j v r. j < length (e # es) \<and> (e # es) ! j = Some v \<and> segs = ToString (i + j) # r \<and> (r, w) \<in> leaves v)
        \<longleftrightarrow> (\<exists>v r. e = Some v \<and> segs = ToString i # r \<and> (r, w) \<in> leaves v) \<or>
            (\<exists>j v r. j < length es \<and> es ! j = Some v \<and> segs = ToString (Suc i + j) # r \<and> (r, w) \<in> leaves v)"
    (is "?L \<longleftrightarrow> ?A \<or> ?B")
  proof
    assume ?L
    then obtain j v r where j: "j < length (e # es)" "(e # es) ! j = Some v"
      "segs = ToString (i + j) # r" "(r, w) \<in> leaves v" by blast
    show "?A \<or> ?B"
    proof (cases j)
      case 0
      with j show ?thesis by auto
    next
      case (Suc j')
      with j have "j' < length es \<and> es ! j' = Some v \<and> segs = ToString (Suc i + j') # r \<and> (r, w) \<in> leaves v"
        by simp
      then show ?thesis by blast
    qed
  next
    assume "?A \<or> ?B"
    then show ?L
    proof
      assume ?A
      then obtain v r where "e = Some v" "segs = ToString i # r" "(r, w) \<in> leaves v" by blast
      then have "0 < length (e # es) \<and> (e # es) ! 0 = Some v \<and> segs = ToString (i + 0) # r \<and> (r, w) \<in> leaves v"
        by simp
      then show ?L by blast
    next
      assume ?B
      then obtain j v r where "j < length es" "es ! j = Some v" "segs = ToString (Suc i + j) # r"
        "(r, w) \<in> leaves v" by blast
      then have "Suc j < length (e # es) \<and> (e # es) ! Suc j = Some v \<and> segs = ToString (i + Suc j) # r \<and> (r, w) \<in> leaves v"
        by simp
      then show ?L by blast
    qed
  qed
  with first rest show ?case by simp
qed

lemma leaves_child:
  assumes "local_ok cur"
  shows "(segs, w) \<in> leaves cur \<longleftrightarrow>
         (\<exists>p r v. segs = p # r \<and> child cur p = Some v \<and> (r, w) \<in> leaves v)"
proof (cases cur)
  case (Prim s)
  with assms show ?thesis by simp
next
  case (Obj ps)
  with assms have d: "distinct (map fst ps)" by simp
  then have "\<And>k v. (k, v) \<in> set ps \<longleftrightarrow> map_of ps k = Some v" by simp
  then show ?thesis unfolding Obj by (simp add: mem_paths_entries) blast
next
  case (Arr es ps)
  with assms have len: "length es \<le> 4294967295" and na: "\<forall>v. Some v \<in> set es \<longrightarrow> \<not> isArray v"
    by simp_all
  have "(\<exists>j v r. j < length es \<and> es ! j = Some v \<and> segs = ToString (0 + j) # r \<and> (r, w) \<in> leaves v)
        \<longleftrightarrow> (\<exists>p r v. segs = p # r \<and> child (Arr es ps) p = Some v \<and> (r, w) \<in> leaves v)"
    (is "?L \<longleftrightarrow> ?R")
  proof
    assume ?L
    then obtain j v r where j: "j < length es" "es ! j = Some v" "segs = ToString j # r"
      "(r, w) \<in> leaves v" by auto
    with len have "child (Arr es ps) (ToString j) = Some v" by simp
    with j show ?R by blast
  next
    assume ?R
    then obtain p r v where p: "segs = p # r" "child (Arr es ps) p = Some v" "(r, w) \<in> leaves v"
      by blast
    then have "is_array_index p" "Number p < length es" "es ! Number p = Some v"
      by (auto split: if_splits)
    moreover from this have "ToString (Number p) = p" by (simp add: is_array_index_def)
    ultimately show ?L using p by (intro exI [of _ "Number p"]) auto
  qed
  then show ?thesis unfolding Arr using mem_paths_forEach [OF na, of segs w 0] by simp
qed

lemma get_seg_child:
  "fits cur p \<Longrightarrow> get_seg cur p = (case child cur p of Some v \<Rightarrow> v | None \<Rightarrow> Prim Undefined)"
proof (cases cur)
  case (Prim s)
  assume "fits cur p"
  with Prim show ?thesis by simp
next
  case (Obj ps)
  assume "fits cur p"
  with Obj show ?thesis by (auto simp: get_seg_def root_key_def obj_get_def split: if_splits)
next
  case (Arr es ps)
  assume "fits cur p"
  with Arr show ?thesis
    by (auto simp: get_seg_def is_array_index_def arr_get_def split: option.splits)
qed

lemma distinct_insert_index_key:
  "distinct (map fst ps) \<Longrightarrow> k \<notin> fst ` set ps \<Longrightarrow> distinct (map fst (insert_index_key k v ps))"
  by (induction ps) (auto simp: image_iff)

lemma distinct_obj_put: "distinct (map fst ps) \<Longrightarrow> distinct (map fst (obj_put k v ps))"
  by (simp add: obj_put_def distinct_insert_index_key)

lemma length_arr_put: "length (arr_put j c es) = max (length es) (Suc j)"
  by (simp add: arr_put_def)

lemma nth_arr_put:
  "j' < length (arr_put j c es) \<Longrightarrow>
   arr_put j c es ! j' = (if j' = j then Some c else if j' < length es then es ! j' else None)"
  by (auto simp: arr_put_def nth_append)

lemma set_arr_put: "set (arr_put j c es) \<subseteq> insert (Some c) (insert None (set es))"
  by (auto simp: arr_put_def dest: set_update_subset_insert [THEN subsetD])

lemma array_index_eq:
  "is_array_index p \<Longrightarrow> is_array_index p' \<Longrightarrow> Number p' = Number p \<Longrightarrow> p' = p"
  by (metis is_array_index_def)

lemma set_seg_fits_Obj: "fits (Obj ps) p \<Longrightarrow> set_seg (Obj ps) p c = Obj (obj_put p c ps)"
  by (auto simp: set_seg_def root_key_def split: if_splits)

lemma set_seg_fits_Arr:
  "fits (Arr es ps) p \<Longrightarrow> set_seg (Arr es ps) p c = Arr (arr_put (Number p) c es) ps"
  by (auto simp: set_seg_def is_array_index_def)

lemma child_set_seg:
  assumes "fits cur p"
  shows "child (set_seg cur p c) p' = (if p' = p then Some c else child cur p')"
proof (cases cur)
  case (Prim s)
  with assms show ?thesis by simp
next
  case (Obj ps)
  with assms show ?thesis by (simp add: set_seg_fits_Obj)
next
  case (Arr es ps)
  with assms have p: "is_array_index p" by simp
  let ?j = "Number p"
  show ?thesis
  proof (cases "is_array_index p'")
    case False
    with p Arr assms show ?thesis by (auto simp: set_seg_fits_Arr)
  next
    case True
    show ?thesis
    proof (cases "p' = p")
      case True
      with p Arr assms show ?thesis
        by (simp add: set_seg_fits_Arr length_arr_put nth_arr_put)
    next
      case False
      with p \<open>is_array_index p'\<close> have ne: "Number p' \<noteq> ?j" using array_index_eq by blast
      show ?thesis
      proof (cases "Number p' < length (arr_put ?j c es)")
        case True
        with ne False Arr assms \<open>is_array_index p'\<close> show ?thesis
          by (simp add: set_seg_fits_Arr nth_arr_put)
      next
        case False
        then have "\<not> Number p' < length es" by (simp add: length_arr_put)
        with False \<open>p' \<noteq> p\<close> Arr assms show ?thesis by (simp add: set_seg_fits_Arr)
      qed
    qed
  qed
qed

lemma local_ok_set_seg:
  assumes "fits cur p" and "local_ok cur" and "isArray cur \<longrightarrow> \<not> isArray c"
  shows "local_ok (set_seg cur p c)"
proof (cases cur)
  case (Prim s)
  with assms show ?thesis by simp
next
  case (Obj ps)
  with assms show ?thesis by (simp add: set_seg_fits_Obj distinct_obj_put)
next
  case (Arr es ps)
  with assms have p: "is_array_index p" and c: "\<not> isArray c"
    and ok: "length es \<le> 4294967295" "\<forall>v. Some v \<in> set es \<longrightarrow> \<not> isArray v" by simp_all
  from p have "Number p < 4294967295" by (simp add: is_array_index_def)
  with ok have len: "length (arr_put (Number p) c es) \<le> 4294967295"
    by (simp add: length_arr_put)
  have "\<forall>v. Some v \<in> set (arr_put (Number p) c es) \<longrightarrow> \<not> isArray v"
    using set_arr_put [of "Number p" c es] ok(2) c by auto
  with len Arr assms show ?thesis by (simp add: set_seg_fits_Arr)
qed

lemma in_keys: "(k, v) \<in> set ps \<Longrightarrow> k \<in> fst ` set ps"
  by force

lemma inv_props_iff:
  "inv_props ps \<longleftrightarrow> distinct (map fst ps) \<and> (\<forall>(k, v) \<in> set ps. name_ok k \<and> inv_value v)"
  by (induction ps) (auto dest: in_keys)

lemma inv_elems_iff:
  "inv_elems es \<longleftrightarrow> (\<forall>v. Some v \<in> set es \<longrightarrow> \<not> isArray v \<and> inv_value v)"
  by (induction es) (auto split: option.splits)

lemma child_Arr_mem: "child (Arr es ps) p = Some c \<Longrightarrow> Some c \<in> set es"
  by (auto split: if_splits simp: in_set_conv_nth)

lemma mem_child_Arr:
  assumes "Some c \<in> set es" and "length es \<le> 4294967295"
  shows "\<exists>p. child (Arr es ps) p = Some c"
proof -
  from assms(1) obtain j where j: "j < length es" "es ! j = Some c"
    by (auto simp: in_set_conv_nth)
  with assms(2) have "child (Arr es ps) (ToString j) = Some c" by simp
  then show ?thesis ..
qed

lemma paths_forEach_empty_iff:
  "paths_forEach es i = [] \<Longrightarrow> inv_elems es \<Longrightarrow> (\<forall>v. Some v \<in> set es \<longrightarrow> leaves v \<noteq> {}) \<Longrightarrow>
   \<not> list_ex (\<lambda>e. e \<noteq> None) es"
proof (induction es arbitrary: i)
  case Nil
  then show ?case by simp
next
  case (Cons e es)
  show ?case
  proof (cases e)
    case None
    with Cons show ?thesis by auto
  next
    case (Some v)
    with Cons.prems have "leaves v \<noteq> {}" "\<not> isArray v" by auto
    with Some Cons.prems(1) show ?thesis by (cases v) auto
  qed
qed

lemma leaves_nonempty:
  "inv_value v \<Longrightarrow> leaves v \<noteq> {}"
  "inv_props ps \<Longrightarrow> ps \<noteq> [] \<Longrightarrow> paths_entries ps \<noteq> []"
  "inv_elems es \<Longrightarrow> list_ex (\<lambda>e. e \<noteq> None) es \<Longrightarrow> paths_forEach es i \<noteq> []"
proof (induction v and ps and es arbitrary: and and i rule: inv_value_inv_props_inv_elems.induct)
  case (1 s)
  show ?case by simp
next
  case (2 ps)
  then show ?case by simp
next
  case (3 es ps)
  then show ?case by simp
next
  case 4
  then show ?case by simp
next
  case (5 k v ps)
  then have "leaves v \<noteq> {}" by simp
  then show ?case by (cases v) auto
next
  case 6
  then show ?case by simp
next
  case (7 e es)
  show ?case
  proof (cases e)
    case None
    with 7 show ?thesis by auto
  next
    case (Some v)
    with 7 have "leaves v \<noteq> {}" "\<not> isArray v" by auto
    with Some show ?thesis by (cases v) auto
  qed
qed

lemma all_None_no_paths: "\<not> list_ex (\<lambda>e. e \<noteq> None) es \<Longrightarrow> paths_forEach es i = []"
  by (induction es arbitrary: i) auto

lemma inv_value_cont:
  assumes "is_container c" and "inv_value c"
  shows "inv_cont True c"
proof (cases c)
  case (Prim s)
  with assms show ?thesis by simp
next
  case (Obj ps)
  with assms have "inv_props ps" by simp
  then have d: "distinct (map fst ps)" and a: "\<forall>(k, v) \<in> set ps. name_ok k \<and> inv_value v"
    by (simp_all add: inv_props_iff)
  have "\<forall>p c'. child (Obj ps) p = Some c' \<longrightarrow> inv_value c' \<and> name_ok p"
    using a by (auto dest: map_of_SomeD)
  with d show ?thesis unfolding Obj by (simp add: inv_cont_def)
next
  case (Arr es ps)
  with assms have ps: "ps = []" and len: "length es \<le> 4294967295" and e: "inv_elems es" by simp_all
  from e have a: "\<forall>v. Some v \<in> set es \<longrightarrow> \<not> isArray v \<and> inv_value v" by (simp add: inv_elems_iff)
  then have "\<forall>p c'. child (Arr es ps) p = Some c' \<longrightarrow> inv_value c'"
    using child_Arr_mem by blast
  with a ps len show ?thesis unfolding Arr by (simp add: inv_cont_def)
qed

lemma inv_cont_value:
  assumes "inv_cont True c" and "leaves c \<noteq> {}"
  shows "inv_value c"
proof (cases c)
  case (Prim s)
  with assms show ?thesis by (simp add: inv_cont_def)
next
  case (Obj ps)
  with assms have d: "distinct (map fst ps)"
    and a: "\<forall>p c'. map_of ps p = Some c' \<longrightarrow> inv_value c' \<and> name_ok p"
    by (simp_all add: inv_cont_def)
  from d a have "inv_props ps" by (auto simp: inv_props_iff)
  moreover from assms(2) Obj have "ps \<noteq> []" by auto
  ultimately show ?thesis using Obj by simp
next
  case (Arr es ps)
  with assms have ps: "ps = []" and len: "length es \<le> 4294967295"
    and na: "\<forall>v. Some v \<in> set es \<longrightarrow> \<not> isArray v"
    and a: "\<forall>p c'. child (Arr es ps) p = Some c' \<longrightarrow> inv_value c'"
    by (simp_all add: inv_cont_def)
  have "\<forall>v. Some v \<in> set es \<longrightarrow> inv_value v"
    using a mem_child_Arr [OF _ len, of _ ps] by blast
  with na have e: "inv_elems es" by (simp add: inv_elems_iff)
  from assms(2) Arr have "paths_forEach es 0 \<noteq> []" by auto
  then have "list_ex (\<lambda>e. e \<noteq> None) es" using all_None_no_paths by blast
  with e ps len Arr show ?thesis by simp
qed

lemma inv_cont_fresh [simp]: "inv_cont True (fresh_for q)"
  by (simp add: inv_cont_def fresh_for_def)

lemma leaves_fresh [simp]: "leaves (fresh_for q) = {}"
  by (simp add: fresh_for_def)

lemma isArray_fresh [simp]: "isArray (fresh_for q) = isIndex q"
  by (simp add: fresh_for_def)

lemma scalar_ok_leaves: "scalar_ok v \<Longrightarrow> leaves v = {([], v)} \<and> inv_value v \<and> \<not> isArray v"
  by (cases v) (auto simp: scalar_ok_def wf_prim_coalesce)

lemma compatible_heads:
  "compatible a b \<Longrightarrow> a \<noteq> [] \<and> b \<noteq> [] \<and> isIndex (hd a) = isIndex (hd b)"
  by (cases a; cases b) (auto split: if_splits)

lemma compatible_Nil2 [simp]: "compatible a [] = False"
  by (cases a) auto

lemma compatible_sym: "compatible a b = compatible b a"
  by (induction a b rule: compatible.induct) auto

lemma compatible_irrefl [simp]: "\<not> compatible a a"
  by (induction a) auto

lemma leaf_head_kind:
  assumes "inv_cont True c" and "(r, w) \<in> leaves c"
  shows "r \<noteq> [] \<and> isIndex (hd r) = isArray c"
proof -
  from assms(1) have ok: "local_ok c" by (simp add: inv_cont_def)
  from assms(2) obtain p r' v where r: "r = p # r'" and ch: "child c p = Some v"
    using leaves_child [OF ok] by blast
  show ?thesis
  proof (cases c)
    case (Prim s)
    with ok show ?thesis by simp
  next
    case (Obj ps)
    with assms(1) ch have "name_ok p" by (auto simp: inv_cont_def)
    with r Obj show ?thesis by (simp add: name_ok_def)
  next
    case (Arr es ps)
    with ch have "is_array_index p" by (auto split: if_splits)
    with r Arr show ?thesis by (simp add: is_array_index_def)
  qed
qed

lemma inv_cont_local: "inv_cont hp cur \<Longrightarrow> local_ok cur"
  by (simp add: inv_cont_def)

lemma leaves_through:
  assumes "local_ok cur" and "child cur p = Some c"
  shows "(p # r, w) \<in> leaves cur \<longleftrightarrow> (r, w) \<in> leaves c"
  using assms by (simp add: leaves_child)

lemma leaves_through_none:
  assumes "local_ok cur" and "child cur p = None"
  shows "(p # r, w) \<notin> leaves cur"
  using assms by (simp add: leaves_child)

lemma leaves_nonempty_path: "local_ok cur \<Longrightarrow> (a, w) \<in> leaves cur \<Longrightarrow> a \<noteq> []"
  by (auto simp: leaves_child)

lemma insert_finish:
  assumes inv: "inv_cont hp cur" and fit: "fits cur p"
    and key: "isArray cur \<or> (if hp then name_ok p else key_ok p)"
    and c': "inv_value c'" "isArray cur \<longrightarrow> \<not> isArray c'"
    and l: "leaves c' = insert (rest, v) {(r, w). (p # r, w) \<in> leaves cur}"
  shows "inv_cont hp (set_seg cur p c') \<and>
         leaves (set_seg cur p c') = insert (p # rest, v) (leaves cur)"
proof
  let ?new = "set_seg cur p c'"
  from inv have ok: "local_ok cur" by (rule inv_cont_local)
  have ok': "local_ok ?new" using fit ok c'(2) by (rule local_ok_set_seg)
  have ch: "\<And>p'. child ?new p' = (if p' = p then Some c' else child cur p')"
    using fit by (rule child_set_seg)
  have shape: "(case ?new of Arr es ps \<Rightarrow> hp \<and> ps = [] | Obj ps \<Rightarrow> True | Prim s \<Rightarrow> False)"
    using inv fit by (cases cur) (simp_all add: inv_cont_def set_seg_fits_Obj set_seg_fits_Arr)
  have arr: "isArray ?new = isArray cur" by simp
  show "inv_cont hp ?new"
    unfolding inv_cont_def
    using ok' shape inv key c'(1) by (auto simp: ch arr inv_cont_def)
  show "leaves ?new = insert (p # rest, v) (leaves cur)"
  proof (rule set_eqI)
    fix x :: "string list \<times> jsval"
    obtain a w where x: "x = (a, w)" by (cases x)
    have "(a, w) \<in> leaves ?new \<longleftrightarrow>
          (\<exists>r. a = p # r \<and> (r, w) \<in> leaves c') \<or>
          (\<exists>p' r c. p' \<noteq> p \<and> a = p' # r \<and> child cur p' = Some c \<and> (r, w) \<in> leaves c)"
      unfolding leaves_child [OF ok'] ch by auto
    also have "(\<exists>r. a = p # r \<and> (r, w) \<in> leaves c') \<longleftrightarrow>
               (a = p # rest \<and> w = v) \<or> (\<exists>r. a = p # r \<and> (a, w) \<in> leaves cur)"
      unfolding l by auto
    also have "(\<exists>p' r c. p' \<noteq> p \<and> a = p' # r \<and> child cur p' = Some c \<and> (r, w) \<in> leaves c) \<longleftrightarrow>
               (\<exists>p' r. p' \<noteq> p \<and> a = p' # r \<and> (a, w) \<in> leaves cur)"
      unfolding leaves_child [OF ok] by auto
    finally have "(a, w) \<in> leaves ?new \<longleftrightarrow> (a = p # rest \<and> w = v) \<or> (a, w) \<in> leaves cur"
      using leaves_nonempty_path [OF ok, of a w] by (cases a) auto
    then show "x \<in> leaves ?new \<longleftrightarrow> x \<in> insert (p # rest, v) (leaves cur)"
      by (simp add: x)
  qed
qed

lemma nadj_tl: "nadj (p # rest) \<Longrightarrow> nadj rest"
  by (cases rest) auto

lemma key_ok_fits:
  assumes "inv_cont hp cur" and "key_ok p" and "hp \<longrightarrow> isArray cur = isIndex p"
  shows "fits cur p" and "conv hp cur p = cur"
    and "isArray cur \<or> (if hp then name_ok p else key_ok p)"
proof -
  from assms(1) have ok: "local_ok cur" by (rule inv_cont_local)
  from assms(2) have rk: "root_key p = p"
    by (auto simp: key_ok_def root_key_def is_array_index_def)
  show "fits cur p"
  proof (cases cur)
    case (Prim s)
    with ok show ?thesis by simp
  next
    case (Obj ps)
    with rk show ?thesis by simp
  next
    case (Arr es ps)
    with assms(1) have hp by (simp add: inv_cont_def)
    with assms(3) Arr have "isIndex p" by simp
    with assms(2) Arr show ?thesis by (simp add: key_ok_def)
  qed
  show "conv hp cur p = cur" using assms(3) by (auto simp: conv_def)
  show "isArray cur \<or> (if hp then name_ok p else key_ok p)"
    using assms(2,3) by (auto simp: key_ok_def name_ok_def)
qed

lemma subscript_key_ok:
  assumes "key_ok p" and "isArray cur \<longrightarrow> isIndex p"
  shows "subscript_outcome cur p l n = Returns ()"
proof -
  have "\<not> isIndex ''length''" by (simp add: isIndex_def is_digit_def)
  with assms show ?thesis
    by (auto simp: subscript_outcome_def key_ok_def is_array_index_def)
qed

lemma insert_leaf:
  assumes "inv_cont hp cur" and "segs \<noteq> []" and "hp \<longrightarrow> isArray cur = isIndex (hd segs)"
    and "\<forall>s \<in> set segs. key_ok s" and "if hp then nadj segs else nadj (tl segs)"
    and "scalar_ok v" and "\<forall>(a, w) \<in> leaves cur. compatible a segs"
  shows "inv_cont hp (setDeep_at hp cur segs v) \<and>
         leaves (setDeep_at hp cur segs v) = insert (segs, v) (leaves cur) \<and>
         setDeep_outcome hp cur segs v = Returns (setDeep_at hp cur segs v)"
  using assms
proof (induction segs arbitrary: hp cur)
  case Nil
  then show ?case by simp
next
  case (Cons p rest)
  from Cons.prems have inv: "inv_cont hp cur" and kp: "key_ok p"
    and kind: "hp \<longrightarrow> isArray cur = isIndex p"
    and compat: "\<And>a w. (a, w) \<in> leaves cur \<Longrightarrow> compatible a (p # rest)"
    by auto
  from inv have ok: "local_ok cur" by (rule inv_cont_local)
  note fit = key_ok_fits [OF inv kp kind]
  have arr: "isArray cur \<longrightarrow> isIndex p"
  proof
    assume a: "isArray cur"
    with inv have hp by (cases cur) (simp_all add: inv_cont_def)
    with a kind show "isIndex p" by simp
  qed
  have sub: "\<And>l n. subscript_outcome cur p l n = Returns ()"
    using kp arr by (rule subscript_key_ok)
  show ?case
  proof (cases rest)
    case Nil
    have none: "{(r, w). (p # r, w) \<in> leaves cur} = {}"
    proof -
      { fix r w assume "(p # r, w) \<in> leaves cur"
        then have "compatible (p # r) (p # rest)" by (rule compat)
        then have False by (simp add: Nil) }
      then show ?thesis by auto
    qed
    have "inv_cont hp (set_seg cur p v) \<and>
          leaves (set_seg cur p v) = insert (p # [], v) (leaves cur)"
      using inv fit(1,3) scalar_ok_leaves [OF Cons.prems(6)] none
      by (intro insert_finish) simp_all
    then show ?thesis by (simp add: Nil setDeep_at_last setDeep_outcome_last sub fit(2))
  next
    case (Cons q rest')
    then have ne: "rest \<noteq> []" by simp
    let ?ch = "if is_container (get_seg cur p) then get_seg cur p else fresh_for (hd rest)"
    let ?c' = "setDeep_at True ?ch rest v"
    have step: "setDeep_at hp cur (p # rest) v = set_seg cur p ?c'"
      by (simp add: setDeep_at_step [OF ne] fit(2))
    have krest: "\<forall>s \<in> set rest. key_ok s" using Cons.prems(4) by simp
    have nrest: "nadj rest" using Cons.prems(5) by (auto dest: nadj_tl split: if_splits)
    have next_kind: "isArray cur \<longrightarrow> \<not> isIndex (hd rest)"
    proof
      assume a: "isArray cur"
      with inv have hp by (cases cur) (simp_all add: inv_cont_def)
      with a kind Cons.prems(5) Cons show "\<not> isIndex (hd rest)" by auto
    qed
    have main: "inv_value ?c' \<and> (isArray cur \<longrightarrow> \<not> isArray ?c') \<and>
                leaves ?c' = insert (rest, v) {(r, w). (p # r, w) \<in> leaves cur} \<and>
                setDeep_outcome True ?ch rest v = Returns ?c'"
    proof (cases "child cur p")
      case None
      then have g: "get_seg cur p = Prim Undefined" by (simp add: get_seg_child [OF fit(1)])
      then have ch: "?ch = fresh_for (hd rest)" by simp
      have none: "{(r, w). (p # r, w) \<in> leaves cur} = {}"
        using leaves_through_none [OF ok None] by auto
      have "inv_cont True (setDeep_at True (fresh_for (hd rest)) rest v) \<and>
            leaves (setDeep_at True (fresh_for (hd rest)) rest v) =
              insert (rest, v) (leaves (fresh_for (hd rest))) \<and>
            setDeep_outcome True (fresh_for (hd rest)) rest v =
              Returns (setDeep_at True (fresh_for (hd rest)) rest v)"
        using ne krest nrest Cons.prems(6) by (intro Cons.IH) simp_all
      then have 1: "inv_cont True ?c'" and 2: "leaves ?c' = {(rest, v)}"
        and run: "setDeep_outcome True ?ch rest v = Returns ?c'"
        by (simp_all add: ch)
      from 1 2 have 3: "inv_value ?c'" by (intro inv_cont_value) simp_all
      have "isArray ?c' = isIndex (hd rest)"
        unfolding ch by (simp add: isArray_setDeep_at)
      with next_kind 2 3 none run show ?thesis by simp
    next
      case (Some c)
      then have g: "get_seg cur p = c" by (simp add: get_seg_child [OF fit(1)])
      from inv Some have ic: "inv_value c" by (simp add: inv_cont_def)
      have through: "\<And>r w. (p # r, w) \<in> leaves cur \<longleftrightarrow> (r, w) \<in> leaves c"
        using leaves_through [OF ok Some] by simp
      show ?thesis
      proof (cases "is_container c")
        case False
        then obtain s where c: "c = Prim s" by (cases c) auto
        then have "([], Prim (coalesce_empty s)) \<in> leaves c" by simp
        then have "([p], Prim (coalesce_empty s)) \<in> leaves cur" using through by simp
        then have "compatible [p] (p # rest)" by (rule compat)
        then show ?thesis by simp
      next
        case True
        with g have ch: "?ch = c" by simp
        from True ic have icont: "inv_cont True c" by (rule inv_value_cont)
        from ic have "leaves c \<noteq> {}" by (rule leaves_nonempty)
        then obtain r w where rw: "(r, w) \<in> leaves c" by auto
        then have "compatible (p # r) (p # rest)" using through compat by blast
        then have "compatible r rest" by simp
        then have "isIndex (hd r) = isIndex (hd rest)" by (auto dest: compatible_heads)
        with leaf_head_kind [OF icont rw] have k: "isArray c = isIndex (hd rest)" by simp
        have cc: "\<forall>(a, w) \<in> leaves c. compatible a rest"
        proof (clarify)
          fix a w assume "(a, w) \<in> leaves c"
          then have "compatible (p # a) (p # rest)" using through compat by blast
          then show "compatible a rest" by simp
        qed
        have "inv_cont True (setDeep_at True c rest v) \<and>
              leaves (setDeep_at True c rest v) = insert (rest, v) (leaves c) \<and>
              setDeep_outcome True c rest v = Returns (setDeep_at True c rest v)"
          using icont ne k krest nrest Cons.prems(6) cc by (intro Cons.IH) simp_all
        then have 1: "inv_cont True ?c'" and 2: "leaves ?c' = insert (rest, v) (leaves c)"
          and run: "setDeep_outcome True ?ch rest v = Returns ?c'"
          by (simp_all add: ch)
        from 1 2 have 3: "inv_value ?c'" by (intro inv_cont_value) simp_all
        have 4: "isArray ?c' = isArray c"
          unfolding ch using k by (intro isArray_setDeep_at) simp
        have 5: "isArray cur \<longrightarrow> \<not> isArray c"
        proof
          assume "isArray cur"
          then obtain es ps where cur: "cur = Arr es ps" by (cases cur) auto
          with Some have "Some c \<in> set es" using child_Arr_mem by blast
          with ok cur show "\<not> isArray c" by simp
        qed
        have "{(r, w). (p # r, w) \<in> leaves cur} = leaves c" using through by auto
        with 2 3 4 5 run show ?thesis by simp
      qed
    qed
    have "inv_cont hp (set_seg cur p ?c') \<and>
          leaves (set_seg cur p ?c') = insert (p # rest, v) (leaves cur)"
      using inv fit(1,3) main by (intro insert_finish) simp_all
    moreover from main have run: "setDeep_outcome True ?ch rest v = Returns ?c'" by blast
    have "setDeep_outcome hp cur (p # rest) v = Returns (set_seg cur p ?c')"
      by (simp only: setDeep_outcome_step [OF ne] fit(2) sub run and_then.simps)
    ultimately show ?thesis by (simp only: step simp_thms)
  qed
qed

lemma flatten_paths_ne:
  "ne_props ps \<Longrightarrow>
     flatten_entries ps pk out = fold put_entry (map (keyed pk) (paths_entries ps)) out"
  "ne_elems es \<Longrightarrow> nk \<noteq> [] \<Longrightarrow>
     flatten_forEach es i nk out' = fold put_entry (map (keyed nk) (paths_forEach es i)) out'"
proof (induction ps and es i arbitrary: pk out and nk out'
       rule: paths_entries_paths_forEach.induct)
  case 1
  show ?case by simp
next
  case (2 k v rest)
  let ?nk = "if pk \<noteq> [] then pk @ ''.'' @ k else k"
  from "2.prems" have k: "k \<noteq> []" "k \<noteq> ''__proto__''" and rest: "ne_props rest" by auto
  then have nk: "?nk \<noteq> []" by simp
  from k have np: "?nk \<noteq> ''__proto__''" by (simp add: dot_not_proto)
  have first: "(case v of
                  Obj qs \<Rightarrow> flatten_entries qs ?nk out
                | Arr es ps \<Rightarrow> flatten_forEach es 0 ?nk out
                | Prim s \<Rightarrow> (if ?nk = ''__proto__'' then out
                            else obj_put ?nk (Prim (coalesce_empty s)) out)) =
               fold put_entry (map (keyed pk)
                 (case v of
                    Obj qs \<Rightarrow> map (\<lambda>(segs, w). (k # segs, w)) (paths_entries qs)
                  | Arr es ps \<Rightarrow> map (\<lambda>(segs, w). (k # segs, w)) (paths_forEach es 0)
                  | Prim s \<Rightarrow> [([k], Prim (coalesce_empty s))])) out"
  proof (cases v)
    case (Prim s)
    with np show ?thesis by (simp add: keyed_def put_entry_def)
  next
    case (Obj qs)
    with "2.prems" have "ne_props qs" by simp
    then have "flatten_entries qs ?nk out = fold put_entry (map (keyed ?nk) (paths_entries qs)) out"
      by (rule "2.IH"(1) [OF Obj])
    with Obj show ?thesis by (simp only: jsval.case keyed_Cons)
  next
    case (Arr es ps)
    with "2.prems" have "ne_elems es" by simp
    then have "flatten_forEach es 0 ?nk out =
               fold put_entry (map (keyed ?nk) (paths_forEach es 0)) out"
      using nk by (rule "2.IH"(2) [OF Arr])
    with Arr show ?thesis by (simp only: jsval.case keyed_Cons)
  qed
  show ?case
    using "2.IH"(3) [OF rest] by (simp add: first Let_def)
next
  case (3 i)
  show ?case by simp
next
  case (4 e es i)
  let ?nki = "nk @ ''.'' @ ToString i"
  from "4.prems" have es: "ne_elems es" and nk: "nk \<noteq> []" by simp_all
  have first: "(case e of
                  None \<Rightarrow> out'
                | Some (Obj qs) \<Rightarrow> flatten_entries qs ?nki out'
                | Some (Arr a b) \<Rightarrow> obj_put ?nki (Arr a b) out'
                | Some (Prim s) \<Rightarrow> obj_put ?nki (Prim (coalesce_empty s)) out') =
               fold put_entry (map (keyed nk)
                 (case e of
                    None \<Rightarrow> []
                  | Some (Obj qs) \<Rightarrow> map (\<lambda>(segs, w). (ToString i # segs, w)) (paths_entries qs)
                  | Some (Arr a b) \<Rightarrow> [([ToString i], Arr a b)]
                  | Some (Prim s) \<Rightarrow> [([ToString i], Prim (coalesce_empty s))])) out'"
  proof (cases e)
    case None
    then show ?thesis by simp
  next
    case (Some v)
    show ?thesis
    proof (cases v)
      case (Prim s)
      with Some nk show ?thesis by (simp add: keyed_def put_entry_def)
    next
      case (Arr a b)
      with Some nk show ?thesis by (simp add: keyed_def put_entry_def)
    next
      case (Obj qs)
      with Some "4.prems" have "ne_props qs" by simp
      then have "flatten_entries qs ?nki out' =
                 fold put_entry (map (keyed ?nki) (paths_entries qs)) out'"
        by (rule "4.IH"(1) [OF Some Obj])
      with Obj Some show ?thesis
        by (simp only: option.case jsval.case keyed_Cons nk if_True not_False_eq_True)
    qed
  qed
  show ?case
    using "4.IH"(2) [OF es nk] by (simp add: first)
qed

lemma wf_ne:
  "wf_value v \<Longrightarrow> (case v of Obj qs \<Rightarrow> ne_props qs | Arr es b \<Rightarrow> ne_elems es | Prim s \<Rightarrow> True)"
  "wf_props ps \<Longrightarrow> ne_props ps"
  "wf_elems es \<Longrightarrow> ne_elems es"
proof (induction v and ps and es rule: wf_value_wf_props_wf_elems.induct)
  case (5 k v ps)
  then show ?case by (auto simp: name_ok_def)
next
  case (7 e es)
  show ?case
  proof (cases e)
    case None
    with 7 show ?thesis by simp
  next
    case (Some v)
    with 7 show ?thesis by (cases v) auto
  qed
qed simp_all

lemma inv_ne:
  "inv_value v \<Longrightarrow> (case v of Obj qs \<Rightarrow> ne_props qs | Arr es b \<Rightarrow> ne_elems es | Prim s \<Rightarrow> True)"
  "inv_props ps \<Longrightarrow> ne_props ps"
  "inv_elems es \<Longrightarrow> ne_elems es"
proof (induction v and ps and es rule: inv_value_inv_props_inv_elems.induct)
  case (5 k v ps)
  then show ?case by (auto simp: name_ok_def)
next
  case (7 e es)
  show ?case
  proof (cases e)
    case None
    with 7 show ?thesis by simp
  next
    case (Some v)
    with 7 show ?thesis by (cases v) auto
  qed
qed simp_all

lemma root_ne:
  "\<forall>(k, v) \<in> set ps. key_ok k \<and> inv_value v \<Longrightarrow> ne_props ps"
  by (induction ps) (auto simp: key_ok_def dest: inv_ne(1))

subsection \<open>Inserting all entries\<close>

lemma fold_insert:
  assumes "inv_cont False R"
    and "\<forall>e \<in> set E. fst e \<noteq> [] \<and> (\<forall>s \<in> set (fst e). key_ok s) \<and> nadj (tl (fst e)) \<and>
           scalar_ok (snd e)"
    and "pairwise_compatible (map fst E)"
    and "\<forall>(a, w) \<in> leaves R. \<forall>e \<in> set E. compatible a (fst e)"
  shows "inv_cont False (fold (setDeep_entry False) E R) \<and>
         leaves (fold (setDeep_entry False) E R) = leaves R \<union> set E \<and>
         fold (setDeep_entry_outcome False) E (Returns R) =
           Returns (fold (setDeep_entry False) E R)"
  using assms
proof (induction E arbitrary: R)
  case Nil
  then show ?case by simp
next
  case (Cons e E)
  obtain segs v where e: "e = (segs, v)" by (cases e)
  let ?R1 = "setDeep_at False R segs v"
  have 1: "inv_cont False ?R1 \<and> leaves ?R1 = insert (segs, v) (leaves R) \<and>
           setDeep_outcome False R segs v = Returns ?R1"
    using Cons.prems e by (intro insert_leaf) auto
  have comp: "\<forall>(a, w) \<in> leaves ?R1. \<forall>e' \<in> set E. compatible a (fst e')"
    using 1 Cons.prems(3,4) e by (auto simp: list_all_iff)
  have "inv_cont False (fold (setDeep_entry False) E ?R1) \<and>
        leaves (fold (setDeep_entry False) E ?R1) = leaves ?R1 \<union> set E \<and>
        fold (setDeep_entry_outcome False) E (Returns ?R1) =
          Returns (fold (setDeep_entry False) E ?R1)"
    using 1 Cons.prems(2,3) comp by (intro Cons.IH) simp_all
  moreover have "setDeep_entry False e R = ?R1" by (simp add: setDeep_entry_def e)
  moreover have "setDeep_entry_outcome False e (Returns R) = Returns ?R1"
    using 1 by (simp add: setDeep_entry_outcome_def e)
  ultimately show ?case using 1 e by simp
qed

lemma unflatten_outcome_segments:
  assumes "\<forall>e \<in> set M. fst e \<noteq> []"
  shows "unflatten_outcome M =
         fold (setDeep_entry_outcome False) (map (\<lambda>e. (split_dot (fst e), snd e)) M)
           (Returns (Obj []))"
proof -
  have "\<And>r. fold (\<lambda>(flatKey, value) r.
                  and_then r (\<lambda>root.
                    if flatKey = [] then Returns root
                    else setDeep_outcome False root (split_dot flatKey) value)) M r =
            fold (setDeep_entry_outcome False) (map (\<lambda>e. (split_dot (fst e), snd e)) M) r"
    using assms
    by (induction M) (auto simp: setDeep_entry_outcome_def)
  then show ?thesis by (simp add: unflatten_outcome_def)
qed

lemma unflatten_segments:
  assumes "\<forall>e \<in> set M. fst e \<noteq> []"
  shows "unflatten M = fold (setDeep_entry False) (map (\<lambda>e. (split_dot (fst e), snd e)) M) (Obj [])"
proof -
  have "\<And>R. fold (\<lambda>(flatKey, value) root.
                  if flatKey = [] then root else setDeep (split_dot flatKey) value root) M R =
            fold (setDeep_entry False) (map (\<lambda>e. (split_dot (fst e), snd e)) M) R"
    using assms
    by (induction M) (auto simp: setDeep_entry_def setDeep_def)
  then show ?thesis by (simp add: unflatten_def)
qed

subsection \<open>Writing entries with distinct keys\<close>

lemma mem_replace_value:
  "distinct (map fst ps) \<Longrightarrow> k \<in> fst ` set ps \<Longrightarrow>
   (x \<in> set (replace_value k v ps)) = (x = (k, v) \<or> (x \<in> set ps \<and> fst x \<noteq> k))"
proof (induction ps)
  case Nil
  then show ?case by simp
next
  case (Cons a ps)
  obtain k' v' where a: "a = (k', v')" by (cases a)
  show ?case
  proof (cases "k' = k")
    case True
    with Cons.prems a have "k \<notin> fst ` set ps" by simp
    then have "\<And>y. y \<in> set ps \<Longrightarrow> fst y \<noteq> k" by blast
    with True a show ?thesis by (cases x) fastforce
  next
    case False
    with Cons.prems a have "k \<in> fst ` set ps" "distinct (map fst ps)" by auto
    then have "(x \<in> set (replace_value k v ps)) = (x = (k, v) \<or> (x \<in> set ps \<and> fst x \<noteq> k))"
      by (rule Cons.IH [rotated])
    with False a show ?thesis by (cases x) fastforce
  qed
qed

lemma set_replace_value:
  "distinct (map fst ps) \<Longrightarrow> k \<in> fst ` set ps \<Longrightarrow>
   set (replace_value k v ps) = insert (k, v) {e \<in> set ps. fst e \<noteq> k}"
  by (rule set_eqI) (simp add: mem_replace_value)

lemma set_insert_index_key: "set (insert_index_key k v ps) = insert (k, v) (set ps)"
proof (induction ps)
  case Nil
  show ?case by simp
next
  case (Cons a ps)
  then show ?case by (cases a) auto
qed

lemma set_obj_put:
  assumes "distinct (map fst ps)"
  shows "set (obj_put k v ps) = insert (k, v) {e \<in> set ps. fst e \<noteq> k}"
proof (cases "k \<in> fst ` set ps")
  case True
  with assms show ?thesis by (simp add: obj_put_def set_replace_value)
next
  case False
  then have 1: "set (obj_put k v ps) = insert (k, v) (set ps)"
    by (simp add: obj_put_def set_insert_index_key)
  from False have "\<And>y. y \<in> set ps \<Longrightarrow> fst y \<noteq> k" by blast
  then have 2: "insert (k, v) (set ps) = insert (k, v) {e \<in> set ps. fst e \<noteq> k}" by blast
  from 1 2 show ?thesis by (rule trans)
qed

lemma fold_put_set:
  assumes "\<forall>e \<in> set xs. \<forall>e' \<in> set xs. fst e = fst e' \<longrightarrow> snd e = snd e'"
    and "distinct (map fst out)"
    and "\<forall>e \<in> set out. \<forall>e' \<in> set xs. fst e = fst e' \<longrightarrow> snd e = snd e'"
  shows "set (fold put_entry xs out) = set out \<union> set xs \<and>
         distinct (map fst (fold put_entry xs out))"
  using assms
proof (induction xs arbitrary: out)
  case Nil
  then show ?case by simp
next
  case (Cons x xs)
  obtain k v where x: "x = (k, v)" by (cases x)
  have xin: "x \<in> set (x # xs)" and sub: "\<And>y. y \<in> set xs \<Longrightarrow> y \<in> set (x # xs)" by simp_all
  let ?out1 = "obj_put k v out"
  have s1: "set ?out1 = insert (k, v) {e \<in> set out. fst e \<noteq> k}"
    using Cons.prems(2) by (rule set_obj_put)
  have same: "e = (k, v)" if "e \<in> set out" "fst e = k" for e
  proof -
    from that x have "fst e = fst x" by simp
    with Cons.prems(3) that(1) xin have "snd e = snd x" by blast
    with that(2) x show ?thesis by (cases e) simp
  qed
  have s2: "set ?out1 = insert x (set out)"
    unfolding s1 x using same by blast
  have d1: "distinct (map fst ?out1)" using Cons.prems(2) by (rule distinct_obj_put)
  have p1: "\<forall>e \<in> set xs. \<forall>e' \<in> set xs. fst e = fst e' \<longrightarrow> snd e = snd e'"
    using Cons.prems(1) sub by blast
  have p3: "\<forall>e \<in> set ?out1. \<forall>e' \<in> set xs. fst e = fst e' \<longrightarrow> snd e = snd e'"
    unfolding s2 using Cons.prems(1,3) xin sub by blast
  have "set (fold put_entry xs ?out1) = set ?out1 \<union> set xs \<and>
        distinct (map fst (fold put_entry xs ?out1))"
    using p1 d1 p3 by (rule Cons.IH)
  moreover have "fold put_entry (x # xs) out = fold put_entry xs ?out1"
    by (simp add: x put_entry_def)
  moreover have "set ?out1 \<union> set xs = set out \<union> set (x # xs)"
    unfolding s2 by simp
  ultimately show ?case by (simp only:)
qed

subsection \<open>Joining the segments of a key\<close>

lemma key_of_concat:
  "pk \<noteq> [] \<Longrightarrow> key_of pk segs = pk @ concat (map (\<lambda>s. CHR ''.'' # s) segs)"
  by (induction segs arbitrary: pk) simp_all

lemma split_dot_join:
  "split_dot k = s # segs \<Longrightarrow> k = s @ concat (map (\<lambda>x. CHR ''.'' # x) segs)"
proof (induction k arbitrary: s segs)
  case Nil
  then show ?case by simp
next
  case (Cons c cs)
  obtain s' ss where sp: "split_dot cs = s' # ss" by (cases "split_dot cs") auto
  from Cons.IH [OF sp] have cs: "cs = s' @ concat (map (\<lambda>x. CHR ''.'' # x) ss)" .
  show ?case
  proof (cases "c = CHR ''.''")
    case True
    with Cons.prems sp have "s = []" "segs = s' # ss" by simp_all
    with True cs show ?thesis by simp
  next
    case False
    with Cons.prems sp have "s = c # s'" "segs = ss" by simp_all
    with cs show ?thesis by simp
  qed
qed

lemma key_of_split_dot: "hd (split_dot k) \<noteq> [] \<Longrightarrow> key_of [] (split_dot k) = k"
proof -
  assume h: "hd (split_dot k) \<noteq> []"
  obtain s segs where sp: "split_dot k = s # segs"
    using list.exhaust [of "split_dot k"] split_dot_nonempty [of k] by blast
  from h have s: "s \<noteq> []" unfolding sp by simp
  have "key_of [] (s # segs) = key_of s segs" using s by (cases s) simp_all
  also have "\<dots> = s @ concat (map (\<lambda>x. CHR ''.'' # x) segs)" using s by (rule key_of_concat)
  also have "\<dots> = k" by (rule split_dot_join [OF sp, symmetric])
  finally show ?thesis unfolding sp .
qed

lemma pairwise_distinct: "pairwise_compatible xs \<Longrightarrow> distinct xs"
  by (induction xs) (auto simp: list_all_iff)

lemma seg_ok_key_ok: "seg_ok s \<Longrightarrow> s \<in> set (split_dot k) \<Longrightarrow> key_ok s"
  by (simp add: seg_ok_def key_ok_def split_dot_segments_nodot)

lemma entry_ok_key: "entry_ok e \<Longrightarrow> fst e \<noteq> [] \<and> key_of [] (split_dot (fst e)) = fst e"
proof -
  assume e: "entry_ok e"
  obtain s segs where sp: "split_dot (fst e) = s # segs"
    using list.exhaust [of "split_dot (fst e)"] split_dot_nonempty [of "fst e"] by blast
  from e have "seg_ok s" by (simp add: entry_ok_def sp)
  then have s: "s \<noteq> []" by (simp add: seg_ok_def)
  then have "hd (split_dot (fst e)) \<noteq> []" by (simp add: sp)
  then have "key_of [] (split_dot (fst e)) = fst e" by (rule key_of_split_dot)
  moreover have "fst e \<noteq> []"
  proof
    assume "fst e = []"
    with sp s show False by simp
  qed
  ultimately show ?thesis by simp
qed

lemma inv_cont_root:
  assumes "inv_cont False R"
  obtains ps where "R = Obj ps" "ne_props ps"
proof -
  from assms obtain ps where R: "R = Obj ps"
    by (cases R) (simp_all add: inv_cont_def)
  from assms R have d: "distinct (map fst ps)" by (simp add: inv_cont_def)
  have "\<forall>(k, v) \<in> set ps. key_ok k \<and> inv_value v"
  proof (intro ballI, clarify)
    fix k v assume "(k, v) \<in> set ps"
    with d have "map_of ps k = Some v" by simp
    then have "child R k = Some v" by (simp add: R)
    with assms show "key_ok k \<and> inv_value v" by (simp add: inv_cont_def R)
  qed
  then have "ne_props ps" by (rule root_ne)
  with R that show thesis by blast
qed

section \<open>Claims\<close>

subsection \<open>C1: round trip from a tree\<close>

text \<open>
  Claim C1 states that \<open>unflatten(flattenJSON(T))\<close> equals \<open>T\<close> for every well-formed tree
  \<open>T\<close>. A tree whose root is a sequence is well-formed, and there the claim fails:
  \<open>unflatten\<close> starts from \<open>{}\<close> and keeps a numeric segment at the root as a key of
  that object, so the root sequence \<open>["x"]\<close> comes back as the mapping \<open>{"0": "x"}\<close>.
\<close>

theorem C1_root_array_counterexample:
  "unflatten (flattenJSON (Arr [Some (Prim (Str ''x''))] []) [] []) = Obj [(''0'', Prim (Str ''x''))] \<and>
   unflatten (flattenJSON (Arr [Some (Prim (Str ''x''))] []) [] []) \<noteq> Arr [Some (Prim (Str ''x''))] []"
  by (simp add: eval_defs)

text \<open>
  Claim C1, amended: for every well-formed tree \<open>T\<close> whose root is a mapping,
  \<open>unflatten(flattenJSON(T))\<close> returns \<open>T\<close>, with the keys of every mapping and the elements
  of every sequence in their order. Well-formed is \<open>wf_tree\<close>: names as keys (non-empty,
  without a dot, not a digit string and not \<open>__proto__\<close>, which JavaScript does not store
  as a property), scalars at the leaves, no empty container below the root, sequences
  without holes. In such a tree every name is a key of a mapping, so that \<open>unflatten\<close>
  applies names to objects only.
\<close>

theorem C1_roundtrip:
  assumes "wf_tree T"
  shows "unflatten_outcome (flattenJSON T [] []) = Returns T \<and>
         unflatten (flattenJSON T [] []) = T"
proof -
  from assms obtain ps where T: "T = Obj ps" and wf: "wf_props ps"
    by (cases T) (auto simp: wf_tree_def)
  have "unflatten_outcome (flattenJSON T [] []) = Returns T"
    unfolding T flattenJSON_Obj using wf by (rule roundtrip_outcome)
  moreover have "unflatten (flattenJSON T [] []) = T"
    unfolding T flattenJSON_Obj using wf by (rule roundtrip_props)
  ultimately show ?thesis by (rule conjI)
qed

text \<open>
  The theorem at the tree
  \<open>{"a": {"b": 1, "c": [1, 2]}, "list": [{"name": "a"}, [true]]}\<close>.
\<close>

theorem C1_roundtrip_witness:
  "wf_tree (Obj [(''a'', Obj [(''b'', Prim (Num 1)),
                              (''c'', Arr [Some (Prim (Num 1)), Some (Prim (Num 2))] [])]),
                 (''list'', Arr [Some (Obj [(''name'', Prim (Str ''a''))]),
                                 Some (Arr [Some (Prim (Bool True))] [])] [])]) \<and>
   unflatten_outcome (flattenJSON
     (Obj [(''a'', Obj [(''b'', Prim (Num 1)),
                        (''c'', Arr [Some (Prim (Num 1)), Some (Prim (Num 2))] [])]),
           (''list'', Arr [Some (Obj [(''name'', Prim (Str ''a''))]),
                           Some (Arr [Some (Prim (Bool True))] [])] [])]) [] []) =
     Returns (Obj [(''a'', Obj [(''b'', Prim (Num 1)),
                       (''c'', Arr [Some (Prim (Num 1)), Some (Prim (Num 2))] [])]),
          (''list'', Arr [Some (Obj [(''name'', Prim (Str ''a''))]),
                          Some (Arr [Some (Prim (Bool True))] [])] [])]) \<and>
   unflatten (flattenJSON
     (Obj [(''a'', Obj [(''b'', Prim (Num 1)),
                        (''c'', Arr [Some (Prim (Num 1)), Some (Prim (Num 2))] [])]),
           (''list'', Arr [Some (Obj [(''name'', Prim (Str ''a''))]),
                           Some (Arr [Some (Prim (Bool True))] [])] [])]) [] []) =
     Obj [(''a'', Obj [(''b'', Prim (Num 1)),
                       (''c'', Arr [Some (Prim (Num 1)), Some (Prim (Num 2))] [])]),
          (''list'', Arr [Some (Obj [(''name'', Prim (Str ''a''))]),
                          Some (Arr [Some (Prim (Bool True))] [])] [])]"
proof -
  have wf: "wf_tree (Obj [(''a'', Obj [(''b'', Prim (Num 1)),
                              (''c'', Arr [Some (Prim (Num 1)), Some (Prim (Num 2))] [])]),
                 (''list'', Arr [Some (Obj [(''name'', Prim (Str ''a''))]),
                                 Some (Arr [Some (Prim (Bool True))] [])] [])])"
    by (simp add: wf_tree_def name_ok_def isIndex_def is_digit_def)
  from wf C1_roundtrip [OF wf] show ?thesis by blast
qed

subsection \<open>C2: a prefix used as mapping and as sequence\<close>

text \<open>
  Claim C2 states that \<open>unflatten\<close> raises \<open>ConflictingSchema\<close> when a path prefix is used
  both with a name and with an index after it, as in \<open>{"a.b.c": "x", "a.0.b": "y"}\<close>.
  The code raises nothing there: it returns \<open>{"a": [{"b": "y"}]}\<close>, without the entry
  \<open>a.b.c\<close>.
\<close>

theorem C2_no_error_counterexample:
  "unflatten_outcome [(''a.b.c'', Prim (Str ''x'')), (''a.0.b'', Prim (Str ''y''))] =
     Returns (Obj [(''a'', Arr [Some (Obj [(''b'', Prim (Str ''y''))])] [])]) \<and>
   unflatten_outcome [(''a.b.c'', Prim (Str ''x'')), (''a.0.b'', Prim (Str ''y''))] \<noteq>
     Throws ConflictingSchema"
  by (simp add: eval_defs)

text \<open>
  Claim C2, amended: \<open>unflatten\<close> raises \<open>ConflictingSchema\<close> on no flat map, whether or
  not a prefix is used both as a mapping-key context and as an index context; and on
  every flat map in which no segment is \<open>__proto__\<close> or \<open>length\<close> and every digit segment is
  below \<open>2^53\<close> (\<open>plain_flat\<close>) it raises no error at all and returns a tree. The source
  has no check of the kinds of a prefix; the one exception it can raise is the
  \<open>RangeError\<close> of JavaScript at the segment \<open>length\<close> on a sequence (C9).
\<close>

theorem C2_mixed_contexts_return:
  "unflatten_outcome M \<noteq> Throws ConflictingSchema \<and>
   (plain_flat M \<longrightarrow> (\<exists>R. unflatten_outcome M = Returns R))"
proof
  show "unflatten_outcome M \<noteq> Throws ConflictingSchema"
  proof
    assume "unflatten_outcome M = Throws ConflictingSchema"
    then have "ConflictingSchema = RangeError" by (rule unflatten_outcome_Throws)
    then show False by simp
  qed
  show "plain_flat M \<longrightarrow> (\<exists>R. unflatten_outcome M = Returns R)"
    using unflatten_outcome_plain [of M] by blast
qed

text \<open>The theorem at the example of the specification, \<open>a.b.c\<close> and \<open>a.0.b\<close>.\<close>

theorem C2_mixed_contexts_return_witness:
  "plain_flat [(''a.b.c'', Prim (Str ''x'')), (''a.0.b'', Prim (Str ''y''))] \<and>
   unflatten_outcome [(''a.b.c'', Prim (Str ''x'')), (''a.0.b'', Prim (Str ''y''))] \<noteq>
     Throws ConflictingSchema \<and>
   (\<exists>R. unflatten_outcome [(''a.b.c'', Prim (Str ''x'')), (''a.0.b'', Prim (Str ''y''))] =
         Returns R)"
proof -
  have h: "plain_flat [(''a.b.c'', Prim (Str ''x'')), (''a.0.b'', Prim (Str ''y''))]"
    by (simp add: plain_key_def ordinary_def isIndex_def is_digit_def Number_def digit_val_def)
  from h C2_mixed_contexts_return
    [of "[(''a.b.c'', Prim (Str ''x'')), (''a.0.b'', Prim (Str ''y''))]"]
  show ?thesis by blast
qed

subsection \<open>C3: flattening what unflatten built\<close>

text \<open>
  Claim C3 states that \<open>flattenJSON(unflatten(M))\<close> has the keys and values of \<open>M\<close> for
  every flat map \<open>M\<close> with unique keys, no path used both as mapping and as index context,
  and no key a proper prefix of another. The flat map \<open>{"a.01": "x"}\<close> is one of them, and
  there the claim fails: an all-digit segment is read as the number it denotes, so
  \<open>unflatten\<close> writes element \<open>1\<close> of a sequence and \<open>flattenJSON\<close> names it \<open>a.1\<close>.
\<close>

theorem C3_noncanonical_index_counterexample:
  "flattenJSON (unflatten [(''a.01'', Prim (Str ''x''))]) [] [] = [(''a.1'', Prim (Str ''x''))] \<and>
   flattenJSON (unflatten [(''a.01'', Prim (Str ''x''))]) [] [] \<noteq> [(''a.01'', Prim (Str ''x''))]"
  by (simp add: eval_defs)

text \<open>
  Claim C3, amended: for every flat map \<open>M\<close> that is \<open>wf_flat\<close>, \<open>unflatten(M)\<close> returns a
  tree, and the entries of \<open>flattenJSON(unflatten(M))\<close> are exactly the entries of \<open>M\<close>,
  each key once. \<open>wf_flat\<close>
  asks that every segment of every key is non-empty, is not \<open>__proto__\<close> and, when all
  digits, is the canonical decimal form of an index below \<open>2^32 - 1\<close>; that after the first segment no index
  follows an index (a sequence directly inside a sequence, which \<open>flattenJSON\<close> does not
  expand, see C5); that every value is a string, a number or a boolean; and that any two
  keys are compatible: neither is a prefix of the other, and where their segments first
  differ both are indices or neither is. The order of the entries is not claimed: an object
  lists its index-like keys first.
\<close>

theorem C3_inverse_on_flat_map:
  assumes "wf_flat M"
  shows "unflatten_outcome M = Returns (unflatten M) \<and>
         set (flattenJSON (unflatten M) [] []) = set M \<and>
         distinct (map fst (flattenJSON (unflatten M) [] []))"
proof -
  let ?sp = "\<lambda>e. (split_dot (fst e), snd e)"
  let ?E = "map ?sp M"
  let ?R = "fold (setDeep_entry False) ?E (Obj [])"
  from assms have ok: "\<And>e. e \<in> set M \<Longrightarrow> entry_ok e"
    and pc: "pairwise_compatible (map (\<lambda>e. split_dot (fst e)) M)"
    by (simp_all add: wf_flat_def list_all_iff)
  have ne: "\<forall>e \<in> set M. fst e \<noteq> []" using ok entry_ok_key by blast
  then have R: "unflatten M = ?R" by (rule unflatten_segments)
  have 0: "inv_cont False (Obj [])" by (simp add: inv_cont_def)
  have 1: "\<forall>e \<in> set ?E. fst e \<noteq> [] \<and> (\<forall>s \<in> set (fst e). key_ok s) \<and> nadj (tl (fst e)) \<and>
             scalar_ok (snd e)"
  proof
    fix e' assume "e' \<in> set ?E"
    then obtain e where e: "e \<in> set M" and e': "e' = ?sp e" by auto
    from ok [OF e] have a: "list_all seg_ok (split_dot (fst e))"
      and b: "nadj (tl (split_dot (fst e)))" and c: "scalar_ok (snd e)"
      by (simp_all add: entry_ok_def)
    from a have "\<forall>s \<in> set (split_dot (fst e)). key_ok s"
      by (auto simp: list_all_iff intro: seg_ok_key_ok)
    with b c show "fst e' \<noteq> [] \<and> (\<forall>s \<in> set (fst e'). key_ok s) \<and> nadj (tl (fst e')) \<and>
             scalar_ok (snd e')"
      by (simp add: e')
  qed
  have 2: "pairwise_compatible (map fst ?E)" using pc by (simp add: comp_def)
  have 3: "\<forall>(a, w) \<in> leaves (Obj []). \<forall>e \<in> set ?E. compatible a (fst e)" by simp
  from fold_insert [OF 0 1 2 3]
  have inv: "inv_cont False ?R" and lv: "leaves ?R = set ?E"
    and run: "fold (setDeep_entry_outcome False) ?E (Returns (Obj [])) = Returns ?R"
    by simp_all
  have O: "unflatten_outcome M = Returns (unflatten M)"
    unfolding unflatten_outcome_segments [OF ne] R by (rule run)
  from inv obtain ps where ps: "?R = Obj ps" and nps: "ne_props ps" by (rule inv_cont_root)
  let ?xs = "map (keyed []) (paths_entries ps)"
  have fl: "flattenJSON (unflatten M) [] [] = fold put_entry ?xs []"
    unfolding R ps flattenJSON_Obj using nps by (rule flatten_paths_ne(1))
  from lv have pe: "set (paths_entries ps) = set ?E" by (simp add: ps)
  have "keyed [] ` ?sp ` set M = set M"
  proof -
    have "keyed [] (?sp e) = e" if "e \<in> set M" for e
      using entry_ok_key [OF ok [OF that]] by (simp add: keyed_def)
    then show ?thesis by force
  qed
  then have xs: "set ?xs = set M" by (simp add: pe)
  have "distinct (map (\<lambda>e. split_dot (fst e)) M)" using pc by (rule pairwise_distinct)
  then have "distinct M \<and> inj_on (\<lambda>e. split_dot (fst e)) (set M)"
    by (simp only: distinct_map)
  then have "distinct M \<and> inj_on fst (set M)"
    unfolding inj_on_def by metis
  then have dM: "distinct (map fst M)" by (simp only: distinct_map)
  have fn: "\<forall>e \<in> set ?xs. \<forall>e' \<in> set ?xs. fst e = fst e' \<longrightarrow> snd e = snd e'"
    unfolding xs
  proof (intro ballI impI)
    fix e e' assume a: "e \<in> set M" "e' \<in> set M" "fst e = fst e'"
    from a(1) have 1: "(fst e, snd e) \<in> set M" by (simp only: prod.collapse)
    from a(2) have "(fst e', snd e') \<in> set M" by (simp only: prod.collapse)
    then have 2: "(fst e, snd e') \<in> set M" by (simp only: a(3))
    from dM 1 2 show "snd e = snd e'" by (rule eq_key_imp_eq_value)
  qed
  have d0: "distinct (map fst ([] :: props))" by simp
  have e0: "\<forall>e \<in> set ([] :: props). \<forall>e' \<in> set ?xs. fst e = fst e' \<longrightarrow> snd e = snd e'"
    by simp
  have "set (fold put_entry ?xs []) = set [] \<union> set ?xs \<and>
        distinct (map fst (fold put_entry ?xs []))"
    using fn d0 e0 by (rule fold_put_set)
  then have "set (flattenJSON (unflatten M) [] []) = set M \<and>
             distinct (map fst (flattenJSON (unflatten M) [] []))"
    unfolding fl xs by simp
  with O show ?thesis by (rule conjI)
qed

text \<open>
  The theorem at the flat map
  \<open>{"list.0.name": "a", "list.1.name": "b", "title": 3}\<close>.
\<close>

theorem C3_inverse_on_flat_map_witness:
  "wf_flat [(''list.0.name'', Prim (Str ''a'')), (''list.1.name'', Prim (Str ''b'')),
            (''title'', Prim (Num 3))] \<and>
   unflatten_outcome [(''list.0.name'', Prim (Str ''a'')),
                      (''list.1.name'', Prim (Str ''b'')),
                      (''title'', Prim (Num 3))] =
     Returns (unflatten [(''list.0.name'', Prim (Str ''a'')),
                         (''list.1.name'', Prim (Str ''b'')),
                         (''title'', Prim (Num 3))]) \<and>
   set (flattenJSON (unflatten [(''list.0.name'', Prim (Str ''a'')),
                                (''list.1.name'', Prim (Str ''b'')),
                                (''title'', Prim (Num 3))]) [] []) =
     set [(''list.0.name'', Prim (Str ''a'')), (''list.1.name'', Prim (Str ''b'')),
          (''title'', Prim (Num 3))] \<and>
   distinct (map fst (flattenJSON (unflatten [(''list.0.name'', Prim (Str ''a'')),
                                              (''list.1.name'', Prim (Str ''b'')),
                                              (''title'', Prim (Num 3))]) [] []))"
proof -
  have wf: "wf_flat [(''list.0.name'', Prim (Str ''a'')), (''list.1.name'', Prim (Str ''b'')),
                     (''title'', Prim (Num 3))]"
    by (simp add: wf_flat_def entry_ok_def seg_ok_def scalar_ok_def isIndex_def is_digit_def
          is_array_index_def Number_def digit_val_def ToString.simps digit_char_def)
  from wf C3_inverse_on_flat_map [OF wf] show ?thesis by (rule conjI)
qed

subsection \<open>C4: numeric segments at the top level\<close>

text \<open>
  Claim C4 states that \<open>unflatten\<close> returns a sequence at the root when all top-level
  segments are numeric, and a mapping with numeric-looking keys when they are mixed.
  The first half fails: the root of \<open>{"0": "x", "1": "y"}\<close> is the mapping
  \<open>{"0": "x", "1": "y"}\<close>, not a sequence.
\<close>

theorem C4_root_is_object_counterexample:
  "unflatten [(''0'', Prim (Str ''x'')), (''1'', Prim (Str ''y''))] =
     Obj [(''0'', Prim (Str ''x'')), (''1'', Prim (Str ''y''))] \<and>
   \<not> isArray (unflatten [(''0'', Prim (Str ''x'')), (''1'', Prim (Str ''y''))])"
  by (simp add: eval_defs)

text \<open>
  Claim C4, amended: whether the top-level segments of a flat map are all numeric, mixed
  or all names, whenever \<open>unflatten\<close> returns, it returns a mapping at the root, and the
  keys of that mapping are exactly the top-level segments of the entries with a non-empty
  key, a numeric segment in its decimal form (\<open>root_key\<close>). This holds of every flat map in
  which no segment is \<open>__proto__\<close>, every digit segment is below \<open>2^53\<close> and the segment
  \<open>length\<close> is not applied to a sequence (there \<open>unflatten\<close> can raise \<open>RangeError\<close>); these
  are the flat maps on which \<open>unflatten_outcome\<close> returns. In particular \<open>unflatten\<close>
  returns on every flat map without a segment \<open>__proto__\<close> or \<open>length\<close> and with digit
  segments below \<open>2^53\<close> (\<open>plain_flat\<close>).
\<close>

theorem C4_root_mapping_keys:
  "(\<forall>R. unflatten_outcome M = Returns R \<longrightarrow>
      (\<exists>ps. R = Obj ps \<and>
            fst ` set ps =
              (\<lambda>e. root_key (hd (split_dot (fst e)))) ` {e \<in> set M. fst e \<noteq> []})) \<and>
   (plain_flat M \<longrightarrow> (\<exists>R. unflatten_outcome M = Returns R))"
proof (intro conjI allI impI)
  fix R assume "unflatten_outcome M = Returns R"
  then have "R = unflatten M" by (rule unflatten_outcome_Returns)
  with unflatten_root_from [of M "[]"]
  show "\<exists>ps. R = Obj ps \<and>
             fst ` set ps =
               (\<lambda>e. root_key (hd (split_dot (fst e)))) ` {e \<in> set M. fst e \<noteq> []}"
    by (simp add: unflatten_def)
next
  assume "plain_flat M"
  then show "\<exists>R. unflatten_outcome M = Returns R"
    using unflatten_outcome_plain [of M] by blast
qed

text \<open>The theorem at \<open>{"0": "x", "07": "y", "name": "z"}\<close>.\<close>

theorem C4_root_mapping_keys_witness:
  "plain_flat [(''0'', Prim (Str ''x'')), (''07'', Prim (Str ''y'')), (''name'', Prim (Str ''z''))] \<and>
   (\<exists>ps. unflatten_outcome [(''0'', Prim (Str ''x'')), (''07'', Prim (Str ''y'')),
                             (''name'', Prim (Str ''z''))] = Returns (Obj ps) \<and>
         fst ` set ps =
           (\<lambda>e. root_key (hd (split_dot (fst e)))) `
             {e \<in> set [(''0'', Prim (Str ''x'')), (''07'', Prim (Str ''y'')),
                        (''name'', Prim (Str ''z''))]. fst e \<noteq> []})"
proof -
  have h: "plain_flat [(''0'', Prim (Str ''x'')), (''07'', Prim (Str ''y'')),
                       (''name'', Prim (Str ''z''))]"
    by (simp add: plain_key_def ordinary_def isIndex_def is_digit_def Number_def digit_val_def)
  from h C4_root_mapping_keys
    [of "[(''0'', Prim (Str ''x'')), (''07'', Prim (Str ''y'')), (''name'', Prim (Str ''z''))]"]
  show ?thesis by blast
qed

text \<open>The root of this flat map, evaluated.\<close>

lemma root_keys_example:
  "unflatten_outcome [(''0'', Prim (Str ''x'')), (''07'', Prim (Str ''y'')),
                      (''name'', Prim (Str ''z''))] =
     Returns (Obj [(''0'', Prim (Str ''x'')), (''7'', Prim (Str ''y'')), (''name'', Prim (Str ''z''))])"
  by (simp add: eval_defs)

subsection \<open>C5 and C6: sequences inside sequences\<close>

text \<open>
  Claim C5: flattening a sequence recurses into every child, also into children that are
  themselves sequences, so that every value of the flat map is a scalar.
  The code does not: on \<open>{"a": [[1, 2]]}\<close> the inner array is stored under \<open>a.0\<close> as it is.
\<close>

theorem C5_nested_array_stored:
  "flattenJSON (Obj [(''a'', Arr [Some (Arr [Some (Prim (Num 1)), Some (Prim (Num 2))] [])] [])]) [] [] =
   [(''a.0'', Arr [Some (Prim (Num 1)), Some (Prim (Num 2))] [])]"
  by (simp add: eval_defs)

text \<open>
  Claim C6: every leaf that is \<open>null\<close> or \<open>undefined\<close> is emitted under its path with the
  empty string as value, and no leaf path is omitted.
  The code omits the leaf \<open>a.0.0\<close> of \<open>{"a": [[null]]}\<close>: the only entry is \<open>a.0\<close>, whose
  value is the inner array with its \<open>null\<close>.
\<close>

theorem C6_null_in_nested_array:
  "flattenJSON (Obj [(''a'', Arr [Some (Arr [Some (Prim Null)] [])] [])]) [] [] =
   [(''a.0'', Arr [Some (Prim Null)] [])]"
  by (simp add: eval_defs)

text \<open>Outside a nested sequence the leaf is written, with the empty string.\<close>

lemma null_leaf_example:
  "flattenJSON (Obj [(''a'', Obj [(''b'', Prim Null)]), (''c'', Arr [Some (Prim Undefined)] [])]) [] [] =
   [(''a.b'', Prim (Str [])), (''c.0'', Prim (Str []))]"
  by (simp add: eval_defs)

subsection \<open>C7: empty and blank keys\<close>

text \<open>
  Claim C7: an entry whose key is empty, or consists of white space only so that it is
  empty after trimming, is skipped as a no-op and raises no error.
  The two halves are done in two places of the program. \<open>unflatten\<close> skips the empty key
  (\<open>if (!flatKey) continue\<close>): the outcome is the one of the flat map without the entry.
  The trimming is done by \<open>processWorkbookToJSON\<close>, the only caller of \<open>unflatten\<close>, when it
  builds the flat map: a row whose key cell is empty after \<open>trim()\<close> is dropped before
  \<open>unflatten\<close> is called, so that the flat map and the outcome of the conversion are the
  ones of the sheet without the row, and no key of a flat map that reaches \<open>unflatten\<close> is
  empty or has white space at an end. In both cases the entry adds no exception of its
  own.
\<close>

theorem C7_blank_key_skipped:
  assumes "trim k = []"
  shows "unflatten_outcome (xs @ ([], v) # ys) = unflatten_outcome (xs @ ys) \<and>
         build_flatMap (rs @ (k, w) # rs') = build_flatMap (rs @ rs') \<and>
         processWorkbookToJSON (rs @ (k, w) # rs') = processWorkbookToJSON (rs @ rs') \<and>
         (\<forall>flatMap. build_flatMap rows = Returns flatMap \<longrightarrow>
            (\<forall>k' \<in> fst ` set flatMap. k' \<noteq> [] \<and> trim k' = k'))"
proof (intro conjI allI impI ballI)
  show "unflatten_outcome (xs @ ([], v) # ys) = unflatten_outcome (xs @ ys)"
    by (rule unflatten_outcome_skip)
  show "build_flatMap (rs @ (k, w) # rs') = build_flatMap (rs @ rs')"
    using assms by (rule build_flatMap_blank)
  show "processWorkbookToJSON (rs @ (k, w) # rs') = processWorkbookToJSON (rs @ rs')"
    using assms by (rule processWorkbookToJSON_blank)
next
  fix flatMap k'
  assume "build_flatMap rows = Returns flatMap" and "k' \<in> fst ` set flatMap"
  then have "k' \<noteq> [] \<and> trim k' = k'" by (rule build_flatMap_keys)
  then show "k' \<noteq> []" and "trim k' = k'" by simp_all
qed

text \<open>
  The theorem at a key of a blank and a tab, between the rows \<open>a.b\<close> and \<open>c\<close>, and at an
  empty key between the entries \<open>a.b\<close> and \<open>c\<close>.
\<close>

theorem C7_blank_key_skipped_witness:
  "trim [CHR '' '', CHR 0x09] = [] \<and>
   unflatten_outcome ([(''a.b'', Prim (Str ''x''))] @ ([], Prim (Str ''y'')) # [(''c'', Prim (Str ''z''))]) =
     unflatten_outcome ([(''a.b'', Prim (Str ''x''))] @ [(''c'', Prim (Str ''z''))]) \<and>
   build_flatMap ([(''a.b'', Prim (Str ''x''))] @ ([CHR '' '', CHR 0x09], Prim (Str ''y'')) #
                  [(''c'', Prim (Str ''z''))]) =
     build_flatMap ([(''a.b'', Prim (Str ''x''))] @ [(''c'', Prim (Str ''z''))]) \<and>
   processWorkbookToJSON ([(''a.b'', Prim (Str ''x''))] @ ([CHR '' '', CHR 0x09], Prim (Str ''y'')) #
                          [(''c'', Prim (Str ''z''))]) =
     processWorkbookToJSON ([(''a.b'', Prim (Str ''x''))] @ [(''c'', Prim (Str ''z''))]) \<and>
   build_flatMap [(''a.b'', Prim (Str ''x'')), ([CHR '' '', CHR 0x09], Prim (Str ''y'')),
                  ('' c '', Prim (Str ''z''))] =
     Returns [(''a.b'', Prim (Str ''x'')), (''c'', Prim (Str ''z''))] \<and>
   ''a.b'' \<noteq> [] \<and> trim ''a.b'' = ''a.b'' \<and> ''c'' \<noteq> [] \<and> trim ''c'' = ''c''"
proof -
  have h: "trim [CHR '' '', CHR 0x09] = []" by (simp add: trim_def is_space_def)
  have b: "build_flatMap [(''a.b'', Prim (Str ''x'')), ([CHR '' '', CHR 0x09], Prim (Str ''y'')),
                          ('' c '', Prim (Str ''z''))] =
           Returns [(''a.b'', Prim (Str ''x'')), (''c'', Prim (Str ''z''))]"
    by (simp add: build_flatMap_def flatMap_row_def trim_def is_space_def obj_put_def
          is_array_index_def isIndex_def is_digit_def)
  note t = C7_blank_key_skipped
    [OF h, of "[(''a.b'', Prim (Str ''x''))]" "Prim (Str ''y'')" "[(''c'', Prim (Str ''z''))]"
       "[(''a.b'', Prim (Str ''x''))]" "Prim (Str ''y'')" "[(''c'', Prim (Str ''z''))]"
       "[(''a.b'', Prim (Str ''x'')), ([CHR '' '', CHR 0x09], Prim (Str ''y'')),
         ('' c '', Prim (Str ''z''))]"]
  from t b
  have "\<forall>k' \<in> fst ` set [(''a.b'', Prim (Str ''x'')), (''c'', Prim (Str ''z''))].
          k' \<noteq> [] \<and> trim k' = k'"
    by blast
  then have k: "''a.b'' \<noteq> [] \<and> trim ''a.b'' = ''a.b''" "''c'' \<noteq> [] \<and> trim ''c'' = ''c''"
    by simp_all
  from h t b k show ?thesis by blast
qed

text \<open>
  What the conversion returns on these rows, and what \<open>unflatten\<close> alone would do with a
  key of blanks: it compares the key with the empty string only.
\<close>

lemma blank_row_example:
  "processWorkbookToJSON [(''a.b'', Prim (Str ''x'')), ([CHR '' '', CHR 0x09], Prim (Str ''y'')),
                          ('' c '', Prim (Str ''z''))] =
     Returns (2, Obj [(''a'', Obj [(''b'', Prim (Str ''x''))]), (''c'', Prim (Str ''z''))])"
  by (simp add: processWorkbookToJSON_def build_flatMap_def flatMap_row_def trim_def is_space_def
        eval_defs)

lemma unflatten_does_not_trim:
  "unflatten [(''  '', Prim (Str ''x''))] = Obj [(''  '', Prim (Str ''x''))]"
  by (simp add: eval_defs)

subsection \<open>C8: the two variants\<close>

text \<open>
  Claim C8: there is a flat map whose top-level segments mix numeric and non-numeric
  ones on which the two variants of \<open>unflatten\<close> return different trees. On
  \<open>{"0": "x", "name": "y"}\<close> the first variant keeps \<open>0\<close> as a key of the root object; the
  second assigns \<open>x\<close> to a local copy of the root and loses it.
\<close>

theorem C8_variants_differ:
  "\<exists>M. (\<exists>k \<in> set (map fst M). isIndex (hd (split_dot k))) \<and>
        (\<exists>k \<in> set (map fst M). \<not> isIndex (hd (split_dot k))) \<and>
        unflatten M = Obj [(''0'', Prim (Str ''x'')), (''name'', Prim (Str ''y''))] \<and>
        unflatten2 M = Obj [(''name'', Prim (Str ''y''))] \<and>
        unflatten M \<noteq> unflatten2 M"
  by (rule exI [of _ "[(''0'', Prim (Str ''x'')), (''name'', Prim (Str ''y''))]"])
     (simp add: eval_defs)

subsection \<open>C9: a key that is a prefix of another\<close>




text \<open>The two orders on \<open>a\<close> and \<open>a.b\<close>, evaluated.\<close>

lemma prefix_key_examples:
  "unflatten_outcome [(''a.b'', Prim (Str ''x'')), (''a'', Prim (Str ''y''))] =
     Returns (Obj [(''a'', Prim (Str ''y''))])"
  "unflatten_outcome [(''a'', Prim (Str ''y'')), (''a.b'', Prim (Str ''x''))] =
     Returns (Obj [(''a'', Obj [(''b'', Prim (Str ''x''))])])"
  by (simp_all add: eval_defs)

subsection \<open>C10: flattenJSON on a value that is not a container\<close>

text \<open>
  Claim C10: on \<open>null\<close>, \<open>undefined\<close> and every other value that is not a container
  (a string, a number, a boolean), \<open>flattenJSON\<close> returns \<open>out\<close> untouched, that is the
  empty flat map under the defaults, and raises nothing.
\<close>

theorem C10_flatten_scalar_root:
  "flattenJSON (Prim s) parentKey out = out \<and> flattenJSON (Prim s) [] [] = []"
  by (simp add: flattenJSON_def is_nullish_def)

end
